theory Spec2Isabelle
  imports Main "HOL-Library.Multiset" "HOL-Library.Char_ord" "HOL-Library.List_Lexorder"
    "HOL-Library.Product_Lexorder"
begin

section \<open>Data model\<close>

text \<open>
  The Python scripts pass pieces around as dictionaries. The keys the code reads or writes
  are \<open>label\<close>, \<open>piece_type\<close>, \<open>row\<close>, \<open>col\<close>, \<open>height\<close> and \<open>width\<close>;
  the last two are absent from a freshly loaded configuration and are filled in by some of
  the functions, so they are optional here. The key \<open>fixed\<close> is the mobility flag a
  configuration may carry; it is copied along with the dictionary, and \<open>None\<close> stands for
  a dictionary without that key.
\<close>

record piece =
  label :: string
  piece_type :: string
  row :: int
  col :: int
  height :: "int option"
  width :: "int option"
  fixed :: "bool option"

record puzzle_config =
  rows :: int
  cols :: int
  pieces :: "piece list"
  target :: string

datatype py_error = ValueError | StopIteration | KeyError | TypeError

datatype direction = Up | Down | Left | Right

text \<open>The dictionary \<open>MOVES\<close>, in its insertion order.\<close>

definition MOVES :: "(direction \<times> int \<times> int) list" where
  "MOVES = [(Up, (-1, 0)), (Down, (1, 0)), (Left, (0, -1)), (Right, (0, 1))]"

text \<open>\<open>range(n)\<close> for a Python integer \<open>n\<close>: empty when \<open>n \<le> 0\<close>.\<close>

definition py_range :: "int \<Rightarrow> int list" where
  "py_range n = [0..n - 1]"

section \<open>Canonical key\<close>

text \<open>\<open>board_to_tuple\<close> (shortestMoves.py, potentialMoves.py, simpleShortestMoves.py).\<close>

definition board_to_tuple :: "piece list \<Rightarrow> (string \<times> int \<times> int) list" where
  "board_to_tuple ps = sort (map (\<lambda>p. (label p, row p, col p)) ps)"

text \<open>The label-to-anchor mapping of a board state.\<close>

definition anchor_map :: "piece list \<Rightarrow> string \<rightharpoonup> int \<times> int" where
  "anchor_map ps = map_of (map (\<lambda>p. (label p, (row p, col p))) ps)"

text \<open>A piece as a configuration file gives it: no dimensions stored, no mobility flag.\<close>

definition mk_piece :: "string \<Rightarrow> string \<Rightarrow> int \<Rightarrow> int \<Rightarrow> piece" where
  "mk_piece l t r c =
     \<lparr>label = l, piece_type = t, row = r, col = c, height = None, width = None, fixed = None\<rparr>"

section \<open>Piece dimensions and footprints\<close>

text \<open>
  \<open>get_piece_dimensions\<close> of shortestMoves.py, potentialMoves.py and graph/getToEnd.py:
  any other type string raises \<open>ValueError\<close>.
\<close>

definition get_piece_dimensions :: "piece \<Rightarrow> py_error + int \<times> int" where
  "get_piece_dimensions p =
     (if piece_type p = ''1x1'' then Inr (1, 1)
      else if piece_type p = ''1x2'' then Inr (1, 2)
      else if piece_type p = ''2x1'' then Inr (2, 1)
      else Inl ValueError)"

text \<open>The variant of simpleShortestMoves.py, which also knows the 2x2 block.\<close>

definition get_piece_dimensions_simple :: "piece \<Rightarrow> py_error + int \<times> int" where
  "get_piece_dimensions_simple p =
     (if piece_type p = ''1x1'' then Inr (1, 1)
      else if piece_type p = ''1x2'' then Inr (1, 2)
      else if piece_type p = ''2x1'' then Inr (2, 1)
      else if piece_type p = ''2x2'' then Inr (2, 2)
      else Inl ValueError)"

text \<open>
  The cells \<open>(r0 + r, c0 + c)\<close> for \<open>r\<close> in \<open>range(h)\<close> and \<open>c\<close> in \<open>range(w)\<close>,
  in the order of the nested loops.
\<close>

definition cells :: "int \<Rightarrow> int \<Rightarrow> int \<Rightarrow> int \<Rightarrow> (int \<times> int) list" where
  "cells r0 c0 h w = concat (map (\<lambda>r. map (\<lambda>c. (r0 + r, c0 + c)) (py_range w)) (py_range h))"

type_synonym board = "int \<times> int \<rightharpoonup> string"
type_synonym move = "direction \<times> int \<times> int"
type_synonym move_dict = "string \<rightharpoonup> move list"
type_synonym step = "string \<times> direction"

section \<open>Move generation with validation (potentialMoves.py, simpleShortestMoves.py)\<close>

text \<open>
  \<open>create_board_representation\<close> writes every cell of every piece into a dictionary and
  stores the dimensions in the piece; the pieces so updated are returned with the board.
  The function computing the dimensions is the one of the file at hand.
\<close>

fun create_board_representation ::
  "(piece \<Rightarrow> py_error + int \<times> int) \<Rightarrow> piece list \<Rightarrow> board \<Rightarrow> py_error + board \<times> piece list" where
  "create_board_representation dims [] board = Inr (board, [])"
| "create_board_representation dims (p # ps) board =
     (case dims p of
        Inl e \<Rightarrow> Inl e
      | Inr (h, w) \<Rightarrow>
          (case create_board_representation dims ps
                  (fold (\<lambda>cell b. b(cell \<mapsto> label p)) (cells (row p) (col p) h w) board) of
             Inl e \<Rightarrow> Inl e
           | Inr (board', ps') \<Rightarrow> Inr (board', p\<lparr>height := Some h, width := Some w\<rparr> # ps')))"

text \<open>\<open>is_valid_move\<close>: reading a missing \<open>height\<close> or \<open>width\<close> key raises \<open>KeyError\<close>.\<close>

definition is_valid_move :: "piece \<Rightarrow> int \<Rightarrow> int \<Rightarrow> board \<Rightarrow> int \<Rightarrow> int \<Rightarrow> py_error + bool" where
  "is_valid_move p new_row new_col board rws cls =
     (case (height p, width p) of
        (Some h, Some w) \<Rightarrow>
          if new_row < 0 \<or> new_col < 0 \<or> new_row + h > rws \<or> new_col + w > cls then Inr False
          else Inr (list_all (\<lambda>cell. case board cell of None \<Rightarrow> True | Some l \<Rightarrow> l = label p)
                      (cells new_row new_col h w))
      | _ \<Rightarrow> Inl KeyError)"

text \<open>The inner loop over \<open>MOVES\<close> for one piece.\<close>

fun valid_moves :: "piece \<Rightarrow> board \<Rightarrow> int \<Rightarrow> int \<Rightarrow> (direction \<times> int \<times> int) list \<Rightarrow> py_error + move list" where
  "valid_moves p board rws cls [] = Inr []"
| "valid_moves p board rws cls ((d, dr, dc) # ms) =
     (case is_valid_move p (row p + dr) (col p + dc) board rws cls of
        Inl e \<Rightarrow> Inl e
      | Inr ok \<Rightarrow>
          (case valid_moves p board rws cls ms of
             Inl e \<Rightarrow> Inl e
           | Inr rest \<Rightarrow> Inr (if ok then (d, row p + dr, col p + dc) # rest else rest)))"

text \<open>The outer loop: one dictionary entry per piece, a later piece of the same label overwriting.\<close>

fun build_move_dict :: "board \<Rightarrow> int \<Rightarrow> int \<Rightarrow> piece list \<Rightarrow> move_dict \<Rightarrow> py_error + move_dict" where
  "build_move_dict board rws cls [] md = Inr md"
| "build_move_dict board rws cls (p # ps) md =
     (case valid_moves p board rws cls MOVES of
        Inl e \<Rightarrow> Inl e
      | Inr ms \<Rightarrow> build_move_dict board rws cls ps (md(label p \<mapsto> ms)))"

definition get_all_possible_moves_valid ::
  "(piece \<Rightarrow> py_error + int \<times> int) \<Rightarrow> piece list \<Rightarrow> int \<Rightarrow> int \<Rightarrow> py_error + move_dict \<times> piece list" where
  "get_all_possible_moves_valid dims ps rws cls =
     (case create_board_representation dims ps Map.empty of
        Inl e \<Rightarrow> Inl e
      | Inr (board, ps') \<Rightarrow>
          (case build_move_dict board rws cls ps' Map.empty of
             Inl e \<Rightarrow> Inl e
           | Inr md \<Rightarrow> Inr (md, ps')))"

section \<open>Move generation of shortestMoves.py\<close>

text \<open>
  \<open>get_all_possible_moves\<close> of shortestMoves.py appends every entry of \<open>MOVES\<close>, shifted
  from the anchor, with no test at all.
\<close>

definition get_all_possible_moves :: "piece list \<Rightarrow> int \<Rightarrow> int \<Rightarrow> move_dict" where
  "get_all_possible_moves ps rws cls =
     fold (\<lambda>p md. md(label p \<mapsto> map (\<lambda>(d, dr, dc). (d, row p + dr, col p + dc)) MOVES)) ps Map.empty"

section \<open>Move generation of March3/generate_states.py\<close>

text \<open>
  This generator takes the dimensions from the type, every type other than the two
  dominoes counting as a unit piece; it validates the shifts of the dominoes and gives
  every other piece the empty list.
\<close>

definition dimensions_march3 :: "piece \<Rightarrow> int \<times> int" where
  "dimensions_march3 p =
     (if piece_type p = ''1x2'' then (1, 2)
      else if piece_type p = ''2x1'' then (2, 1)
      else (1, 1))"

definition board_march3 :: "piece list \<Rightarrow> board" where
  "board_march3 ps =
     fold (\<lambda>p board. case dimensions_march3 p of (h, w) \<Rightarrow>
             fold (\<lambda>cell b. b(cell \<mapsto> label p)) (cells (row p) (col p) h w) board)
       ps Map.empty"

definition moves_march3 :: "piece \<Rightarrow> board \<Rightarrow> int \<Rightarrow> int \<Rightarrow> move list" where
  "moves_march3 p board rws cls =
     (case dimensions_march3 p of (h, w) \<Rightarrow>
        map (\<lambda>(d, dr, dc). (d, row p + dr, col p + dc))
          (filter (\<lambda>(d, dr, dc).
               \<not> (row p + dr < 0 \<or> col p + dc < 0 \<or> row p + dr + h > rws \<or> col p + dc + w > cls) \<and>
               list_all (\<lambda>cell. case board cell of None \<Rightarrow> True | Some l \<Rightarrow> l = label p)
                 (cells (row p + dr) (col p + dc) h w))
             MOVES))"

definition get_all_possible_moves_march3 :: "piece list \<Rightarrow> int \<Rightarrow> int \<Rightarrow> move_dict" where
  "get_all_possible_moves_march3 ps rws cls =
     fold (\<lambda>p md. md(label p \<mapsto>
              (if piece_type p \<in> {''1x2'', ''2x1''} then moves_march3 p (board_march3 ps) rws cls
               else [])))
       ps Map.empty"

section \<open>Breadth-first search\<close>

text \<open>
  The three searches share one loop: pop the head of the queue, look at the state, and
  either raise, skip it (\<open>continue\<close>), return its history, or append every successor whose
  key is new. What happens at a dequeued state is what differs between the files.
\<close>

datatype ('s, 'm) visit = Raise py_error | Skip | Goal | Expand "('m \<times> 's) list"

datatype 'r bfs_result = Raised py_error | Found 'r | Exhausted

fun enqueue_all ::
  "('s \<Rightarrow> 'k) \<Rightarrow> 'm list \<Rightarrow> ('m \<times> 's) list \<Rightarrow> ('s \<times> 'm list) list \<times> 'k set
     \<Rightarrow> ('s \<times> 'm list) list \<times> 'k set" where
  "enqueue_all key hist [] qv = qv"
| "enqueue_all key hist ((m, s') # rest) (queue, visited) =
     (if key s' \<in> visited then enqueue_all key hist rest (queue, visited)
      else enqueue_all key hist rest (queue @ [(s', hist @ [m])], insert (key s') visited))"

partial_function (option) bfs_loop ::
  "('s \<Rightarrow> ('s, 'm) visit) \<Rightarrow> ('s \<Rightarrow> 'k) \<Rightarrow> ('s \<times> 'm list) list \<Rightarrow> 'k set
     \<Rightarrow> ('s \<times> 'm list) bfs_result option" where
  "bfs_loop visit key queue visited =
     (case queue of
        [] \<Rightarrow> Some Exhausted
      | (cur, hist) # rest \<Rightarrow>
          (case visit cur of
             Raise e \<Rightarrow> Some (Raised e)
           | Skip \<Rightarrow> bfs_loop visit key rest visited
           | Goal \<Rightarrow> Some (Found (cur, hist))
           | Expand succs \<Rightarrow>
               (case enqueue_all key hist succs (rest, visited) of
                  (queue', visited') \<Rightarrow> bfs_loop visit key queue' visited')))"

declare bfs_loop.simps [code]

text \<open>
  The graph a search explores: a path from \<open>s\<close> appends, at every state that is expanded,
  one of the steps the expansion offers.
\<close>

inductive bfs_path :: "('s \<Rightarrow> ('s, 'm) visit) \<Rightarrow> 's \<Rightarrow> 'm list \<Rightarrow> 's \<Rightarrow> bool"
  for visit :: "'s \<Rightarrow> ('s, 'm) visit" and s :: 's where
  start: "bfs_path visit s [] s"
| step: "bfs_path visit s h t \<Longrightarrow> visit t = Expand succs \<Longrightarrow> (m, t') \<in> set succs
           \<Longrightarrow> bfs_path visit s (h @ [m]) t'"

text \<open>
  The invariant of the loop, for a search started at \<open>init\<close>: every queue entry holds a
  state with a path to it that is shortest among the paths to states of its key; the lengths of the histories in the queue are sorted
  and differ by at most one; and the visited keys are those of the queued states and of a
  set \<open>D\<close> of reachable states that were dequeued, are no goal states, and whose successors
  all have their key in the visited set.
\<close>

definition bfs_inv ::
  "('s \<Rightarrow> ('s, 'm) visit) \<Rightarrow> ('s \<Rightarrow> 'k) \<Rightarrow> 's \<Rightarrow> ('s \<times> 'm list) list \<Rightarrow> 'k set \<Rightarrow> bool" where
  "bfs_inv visit key init queue visited =
     ((\<forall>e \<in> set queue. bfs_path visit init (snd e) (fst e) \<and>
          (\<forall>h' t. bfs_path visit init h' t \<longrightarrow> key t = key (fst e)
              \<longrightarrow> length (snd e) \<le> length h')) \<and>
      (\<forall>e \<in> set queue. \<forall>e' \<in> set queue. length (snd e) \<le> Suc (length (snd e'))) \<and>
      sorted (map (\<lambda>e. length (snd e)) queue) \<and>
      key init \<in> visited \<and>
      (\<exists>D. visited = key ` (D \<union> fst ` set queue) \<and>
           (\<forall>s \<in> D. (\<exists>h. bfs_path visit init h s) \<and> visit s \<noteq> Goal \<and>
               (\<forall>succs ms. visit s = Expand succs \<longrightarrow> ms \<in> set succs
                   \<longrightarrow> key (snd ms) \<in> visited))))"

text \<open>
  Applying a move in shortestMoves.py and simpleShortestMoves.py: every copied piece
  carrying the label gets the new anchor.
\<close>

definition move_piece :: "piece list \<Rightarrow> string \<Rightarrow> int \<Rightarrow> int \<Rightarrow> piece list" where
  "move_piece ps l r c = map (\<lambda>p. if label p = l then p\<lparr>row := r, col := c\<rparr> else p) ps"

text \<open>
  The two nested \<open>for\<close> loops of the expansion: for every piece, for every entry of
  \<open>possible_moves[piece["label"]]\<close>, the step and the state it leads to; \<open>apply_move\<close>
  builds that state from the label and the new anchor.
\<close>

fun successors ::
  "(string \<Rightarrow> int \<Rightarrow> int \<Rightarrow> 's) \<Rightarrow> move_dict \<Rightarrow> piece list \<Rightarrow> py_error + (step \<times> 's) list" where
  "successors apply_move md [] = Inr []"
| "successors apply_move md (p # ps) =
     (case md (label p) of
        None \<Rightarrow> Inl KeyError
      | Some ms \<Rightarrow>
          (case successors apply_move md ps of
             Inl e \<Rightarrow> Inl e
           | Inr rest \<Rightarrow> Inr (map (\<lambda>(d, r, c). ((label p, d), apply_move (label p) r c)) ms @ rest)))"

subsection \<open>shortestMoves.py\<close>

definition visit_from_state :: "int \<Rightarrow> int \<Rightarrow> string \<Rightarrow> piece list \<Rightarrow> (piece list, step) visit" where
  "visit_from_state rws cls target_label cur =
     (case find (\<lambda>p. label p = target_label) cur of
        None \<Rightarrow> Skip
      | Some target_piece \<Rightarrow>
          if row target_piece = rws - 1 \<and> col target_piece = 0 then Goal
          else (case successors (move_piece cur) (get_all_possible_moves cur rws cls) cur of
                  Inl e \<Rightarrow> Raise e
                | Inr succs \<Rightarrow> Expand succs))"

text \<open>
  The result is \<open>None\<close> when the loop does not return. Both the missing target and the
  emptied queue return the empty list, as the source does.
\<close>

definition find_shortest_target_path_from_state ::
  "piece list \<Rightarrow> 'a puzzle_config_scheme \<Rightarrow> (py_error + step list) option" where
  "find_shortest_target_path_from_state initial_pieces puzzle_data =
     (case find (\<lambda>p. label p = target puzzle_data) initial_pieces of
        None \<Rightarrow> Some (Inr [])
      | Some _ \<Rightarrow>
          (case bfs_loop (visit_from_state (rows puzzle_data) (cols puzzle_data) (target puzzle_data))
                  board_to_tuple [(initial_pieces, [])] {board_to_tuple initial_pieces} of
             None \<Rightarrow> None
           | Some (Raised e) \<Rightarrow> Some (Inl e)
           | Some (Found (s, move_history)) \<Rightarrow> Some (Inr move_history)
           | Some Exhausted \<Rightarrow> Some (Inr [])))"

subsection \<open>simpleShortestMoves.py\<close>

definition visit_simple :: "int \<Rightarrow> int \<Rightarrow> string \<Rightarrow> piece list \<Rightarrow> (piece list, step) visit" where
  "visit_simple rws cls target_label cur =
     (case find (\<lambda>p. label p = target_label) cur of
        None \<Rightarrow> Raise StopIteration
      | Some target_piece \<Rightarrow>
          (case get_piece_dimensions_simple target_piece of
             Inl e \<Rightarrow> Raise e
           | Inr (target_height, _) \<Rightarrow>
               if row target_piece = rws - target_height \<and> col target_piece = 0 then Goal
               else (case get_all_possible_moves_valid get_piece_dimensions_simple cur rws cls of
                       Inl e \<Rightarrow> Raise e
                     | Inr (possible_moves, cur') \<Rightarrow>
                         (case successors (move_piece cur') possible_moves cur' of
                            Inl e \<Rightarrow> Raise e
                          | Inr succs \<Rightarrow> Expand succs))))"

definition find_shortest_target_path :: "'a puzzle_config_scheme \<Rightarrow> (py_error + step list) option" where
  "find_shortest_target_path puzzle_data =
     (case bfs_loop (visit_simple (rows puzzle_data) (cols puzzle_data) (target puzzle_data))
             board_to_tuple [(pieces puzzle_data, [])] {board_to_tuple (pieces puzzle_data)} of
        None \<Rightarrow> None
      | Some (Raised e) \<Rightarrow> Some (Inl e)
      | Some (Found (s, move_history)) \<Rightarrow> Some (Inr move_history)
      | Some Exhausted \<Rightarrow> Some (Inr []))"

subsection \<open>graph/getToEnd.py\<close>

text \<open>A search state of getToEnd.py: the pieces and the cells of the extra blocks.\<close>

record super_state =
  state_pieces :: "piece list"
  extra_blocks :: "(int \<times> int) list"

text \<open>
  Here \<open>create_board_representation\<close> computes the dimensions from the type (and raises
  on an unknown type) but keeps stored ones (\<open>setdefault\<close>), and draws the stored ones.
\<close>

fun create_board_representation_gte :: "piece list \<Rightarrow> board \<Rightarrow> py_error + board \<times> piece list" where
  "create_board_representation_gte [] board = Inr (board, [])"
| "create_board_representation_gte (p # ps) board =
     (case get_piece_dimensions p of
        Inl e \<Rightarrow> Inl e
      | Inr (h0, w0) \<Rightarrow>
          (let h = (case height p of None \<Rightarrow> h0 | Some h' \<Rightarrow> h');
               w = (case width p of None \<Rightarrow> w0 | Some w' \<Rightarrow> w')
           in case create_board_representation_gte ps
                     (fold (\<lambda>cell b. b(cell \<mapsto> label p)) (cells (row p) (col p) h w) board) of
                Inl e \<Rightarrow> Inl e
              | Inr (board', ps') \<Rightarrow> Inr (board', p\<lparr>height := Some h, width := Some w\<rparr> # ps')))"

definition get_all_possible_moves_gte ::
  "piece list \<Rightarrow> (int \<times> int) list \<Rightarrow> int \<Rightarrow> int \<Rightarrow> py_error + move_dict \<times> piece list" where
  "get_all_possible_moves_gte ps extra rws cls =
     (case create_board_representation_gte ps Map.empty of
        Inl e \<Rightarrow> Inl e
      | Inr (board, ps') \<Rightarrow>
          (case build_move_dict (fold (\<lambda>cell b. b(cell \<mapsto> ''X'')) extra board) rws cls ps' Map.empty of
             Inl e \<Rightarrow> Inl e
           | Inr md \<Rightarrow> Inr (md, ps')))"

definition board_to_tuple_gte ::
  "super_state \<Rightarrow> (string \<times> int \<times> int) list \<times> (int \<times> int) list" where
  "board_to_tuple_gte st = (board_to_tuple (state_pieces st), sort (extra_blocks st))"

definition target_piece_in_bottom_left :: "piece \<Rightarrow> int \<Rightarrow> int \<Rightarrow> py_error + bool" where
  "target_piece_in_bottom_left p rws cls =
     (case (height p, width p) of
        (Some h, Some w) \<Rightarrow> Inr ((rws - 1, 0) \<in> set (cells (row p) (col p) h w))
      | _ \<Rightarrow> Inl KeyError)"

text \<open>Only the first piece carrying the label is moved (\<open>break\<close>).\<close>

fun move_first :: "piece list \<Rightarrow> string \<Rightarrow> int \<Rightarrow> int \<Rightarrow> piece list" where
  "move_first [] l r c = []"
| "move_first (p # ps) l r c =
     (if label p = l then p\<lparr>row := r, col := c\<rparr> # ps else p # move_first ps l r c)"

definition expand_gte :: "int \<Rightarrow> int \<Rightarrow> super_state \<Rightarrow> (super_state, step) visit" where
  "expand_gte rws cls cur =
     (case get_all_possible_moves_gte (state_pieces cur) (extra_blocks cur) rws cls of
        Inl e \<Rightarrow> Raise e
      | Inr (moves, ps') \<Rightarrow>
          (case successors (\<lambda>l r c. cur\<lparr>state_pieces := move_first ps' l r c\<rparr>) moves ps' of
             Inl e \<Rightarrow> Raise e
           | Inr succs \<Rightarrow> Expand succs))"

definition visit_supernode :: "int \<Rightarrow> int \<Rightarrow> string \<Rightarrow> super_state \<Rightarrow> (super_state, step) visit" where
  "visit_supernode rws cls target_label cur =
     (case find (\<lambda>p. label p = target_label) (state_pieces cur) of
        None \<Rightarrow> expand_gte rws cls cur
      | Some target_piece \<Rightarrow>
          (case target_piece_in_bottom_left target_piece rws cls of
             Inl e \<Rightarrow> Raise e
           | Inr True \<Rightarrow> Goal
           | Inr False \<Rightarrow> expand_gte rws cls cur))"

text \<open>
  The Python function returns the pair \<open>(moves, state)\<close>, or \<open>(None, None)\<close> when the queue
  empties: the inner \<open>option\<close>. The outer one is \<open>None\<close> when the loop does not return.
\<close>

definition find_shortest_path_from_supernode ::
  "super_state \<Rightarrow> 'a puzzle_config_scheme \<Rightarrow> string
     \<Rightarrow> (py_error + (step list \<times> super_state) option) option" where
  "find_shortest_path_from_supernode initial_state puzzle_data target_label =
     (case bfs_loop (visit_supernode (rows puzzle_data) (cols puzzle_data) target_label)
             board_to_tuple_gte [(initial_state, [])] {board_to_tuple_gte initial_state} of
        None \<Rightarrow> None
      | Some (Raised e) \<Rightarrow> Some (Inl e)
      | Some (Found (s, move_history)) \<Rightarrow> Some (Inr (Some (move_history, s)))
      | Some Exhausted \<Rightarrow> Some (Inr None))"

section \<open>Hyper-node and super-node generation (shortestMoves.py)\<close>

text \<open>\<open>itertools.combinations(xs, k)\<close>: the \<open>k\<close>-element subsequences, in the order of the indices.\<close>

fun combinations :: "'a list \<Rightarrow> nat \<Rightarrow> 'a list list" where
  "combinations xs 0 = [[]]"
| "combinations [] (Suc k) = []"
| "combinations (x # xs) (Suc k) = map ((#) x) (combinations xs k) @ combinations xs (Suc k)"

type_synonym placement = "(int \<times> int) \<times> (int \<times> int)"

definition placements_h :: "int \<Rightarrow> int \<Rightarrow> placement list" where
  "placements_h rws cls =
     concat (map (\<lambda>r. map (\<lambda>c. ((r, c), (r, c + 1))) (py_range (cls - 1))) (py_range rws))"

definition placements_v :: "int \<Rightarrow> int \<Rightarrow> placement list" where
  "placements_v rws cls =
     concat (map (\<lambda>r. map (\<lambda>c. ((r, c), (r + 1, c))) (py_range cls)) (py_range (rws - 1)))"

text \<open>
  The overlap test of \<open>generate_hypernodes\<close>: \<open>occupied\<close> starts empty and receives the
  two cells of each chosen placement; the cells of the pieces left in place are never added.
\<close>

fun placements_valid :: "placement list \<Rightarrow> (int \<times> int) set \<Rightarrow> bool" where
  "placements_valid [] occupied = True"
| "placements_valid (pl # pls) occupied =
     (if fst pl \<in> occupied \<or> snd pl \<in> occupied then False
      else placements_valid pls (occupied \<union> {fst pl, snd pl}))"

definition with_dimensions :: "piece \<Rightarrow> py_error + piece" where
  "with_dimensions p =
     (case get_piece_dimensions p of
        Inl e \<Rightarrow> Inl e
      | Inr (h, w) \<Rightarrow> Inr (p\<lparr>height := Some h, width := Some w\<rparr>))"

fun map_err :: "('a \<Rightarrow> py_error + 'b) \<Rightarrow> 'a list \<Rightarrow> py_error + 'b list" where
  "map_err f [] = Inr []"
| "map_err f (x # xs) =
     (case f x of
        Inl e \<Rightarrow> Inl e
      | Inr y \<Rightarrow> (case map_err f xs of Inl e \<Rightarrow> Inl e | Inr ys \<Rightarrow> Inr (y # ys)))"

text \<open>A movable piece put on the first cell of its placement.\<close>

definition place :: "piece \<times> placement \<Rightarrow> py_error + piece" where
  "place pp = (case pp of (p, placement) \<Rightarrow>
     with_dimensions (p\<lparr>row := fst (fst placement), col := snd (fst placement)\<rparr>))"

text \<open>The body of the double loop for one pair of combinations, on the accumulated result.\<close>

definition hyper_step ::
  "piece list \<Rightarrow> piece list \<Rightarrow> piece list \<Rightarrow> placement list \<times> placement list
     \<Rightarrow> piece list list \<times> (string \<times> int \<times> int) list set
     \<Rightarrow> py_error + piece list list \<times> (string \<times> int \<times> int) list set" where
  "hyper_step mov_1x2 mov_2x1 fixd comb acc =
     (case comb of (comb_h, comb_v) \<Rightarrow>
      case acc of (hyper_states, seen) \<Rightarrow>
        if \<not> placements_valid (comb_h @ comb_v) {} then Inr (hyper_states, seen)
        else
          (case map_err place (zip mov_1x2 comb_h) of
             Inl e \<Rightarrow> Inl e
           | Inr hs \<Rightarrow>
               (case map_err place (zip mov_2x1 comb_v) of
                  Inl e \<Rightarrow> Inl e
                | Inr vs \<Rightarrow>
                    (let state = hs @ vs @ fixd; state_tuple = board_to_tuple state
                     in if state_tuple \<in> seen then Inr (hyper_states, seen)
                        else Inr (hyper_states @ [state], insert state_tuple seen)))))"

fun fold_err :: "('a \<Rightarrow> 'b \<Rightarrow> py_error + 'b) \<Rightarrow> 'a list \<Rightarrow> 'b \<Rightarrow> py_error + 'b" where
  "fold_err f [] acc = Inr acc"
| "fold_err f (x # xs) acc = (case f x acc of Inl e \<Rightarrow> Inl e | Inr acc' \<Rightarrow> fold_err f xs acc')"

definition generate_hypernodes :: "'a puzzle_config_scheme \<Rightarrow> py_error + piece list list" where
  "generate_hypernodes puzzle_data =
     (let movable = filter (\<lambda>p. piece_type p \<in> {''1x2'', ''2x1''}) (pieces puzzle_data)
      in case map_err with_dimensions
                (filter (\<lambda>p. piece_type p \<notin> {''1x2'', ''2x1''}) (pieces puzzle_data)) of
           Inl e \<Rightarrow> Inl e
         | Inr fixd \<Rightarrow>
             (let mov_1x2 = filter (\<lambda>p. piece_type p = ''1x2'') movable;
                  mov_2x1 = filter (\<lambda>p. piece_type p = ''2x1'') movable;
                  combs = concat (map (\<lambda>comb_h. map (\<lambda>comb_v. (comb_h, comb_v))
                              (combinations (placements_v (rows puzzle_data) (cols puzzle_data))
                                  (length mov_2x1)))
                            (combinations (placements_h (rows puzzle_data) (cols puzzle_data))
                                (length mov_1x2)))
              in case fold_err (hyper_step mov_1x2 mov_2x1 fixd) combs ([], {}) of
                   Inl e \<Rightarrow> Inl e
                 | Inr (hyper_states, seen) \<Rightarrow> Inr hyper_states))"

text \<open>
  The first loop of \<open>generate_supernodes\<close>: the stored dimensions are used when both are
  there, those of the type otherwise (and then stored); every cell is added to \<open>occupied\<close>.
\<close>

fun occupy :: "piece list \<Rightarrow> (int \<times> int) set \<Rightarrow> py_error + (int \<times> int) set \<times> piece list" where
  "occupy [] occupied = Inr (occupied, [])"
| "occupy (p # ps) occupied =
     (case (case (height p, width p) of
              (Some h, Some w) \<Rightarrow> Inr (h, w, p)
            | _ \<Rightarrow> (case get_piece_dimensions p of
                      Inl e \<Rightarrow> Inl e
                    | Inr (h, w) \<Rightarrow> Inr (h, w, p\<lparr>height := Some h, width := Some w\<rparr>))) of
        Inl e \<Rightarrow> Inl e
      | Inr (h, w, p') \<Rightarrow>
          (case occupy ps (occupied \<union> set (cells (row p) (col p) h w)) of
             Inl e \<Rightarrow> Inl e
           | Inr (occupied', ps') \<Rightarrow> Inr (occupied', p' # ps')))"

fun string_of_nat :: "nat \<Rightarrow> string" where
  "string_of_nat n =
     (if n < 10 then [''0123456789'' ! n] else string_of_nat (n div 10) @ [''0123456789'' ! (n mod 10)])"

declare string_of_nat.simps [simp del]

text \<open>The dictionary built for the cell at position \<open>idx\<close> of a combination.\<close>

definition block :: "nat \<times> int \<times> int \<Rightarrow> piece" where
  "block ic = (case ic of (idx, cell) \<Rightarrow>
     \<lparr>label = ''Block'' @ string_of_nat (idx + 1), piece_type = ''1x1'',
      row = fst cell, col = snd cell, height = Some 1, width = Some 1, fixed = None\<rparr>)"

text \<open>
  \<open>list(total_cells - occupied)\<close> lists a set in an order Python does not specify:
  \<open>set_order\<close> stands for that listing. The number of blocks is the literal 4 of the source.
\<close>

definition generate_supernodes ::
  "((int \<times> int) set \<Rightarrow> (int \<times> int) list) \<Rightarrow> piece list \<Rightarrow> 'a puzzle_config_scheme
     \<Rightarrow> py_error + piece list list" where
  "generate_supernodes set_order hyper_state puzzle_data =
     (case occupy hyper_state {} of
        Inl e \<Rightarrow> Inl e
      | Inr (occupied, hyper_state') \<Rightarrow>
          (let total_cells = set (cells 0 0 (rows puzzle_data) (cols puzzle_data));
               empty_spaces = set_order (total_cells - occupied)
           in if length empty_spaces \<ge> 4
              then Inr (map (\<lambda>combo. hyper_state' @ map block (enumerate 0 combo))
                          (combinations empty_spaces 4))
              else Inr []))"

section \<open>Loading the configuration (shortestMoves.py)\<close>

text \<open>
  The value \<open>json.load\<close> reads from the file, which is taken to hold valid JSON when
  it exists. Of a JSON object only what the code looks
  for is kept: the values under the keys \<open>rows\<close>, \<open>cols\<close>, \<open>pieces\<close> and \<open>target\<close>
  (\<open>None\<close> for an absent key; a value that is present is taken to have the type the code
  expects) and whether the object holds any other key. Of a number only whether it is
  zero matters here.
\<close>

record json_object =
  rows_key :: "int option"
  cols_key :: "int option"
  pieces_key :: "piece list option"
  target_key :: "string option"
  other_keys :: bool

datatype json_value = Json_null | Json_bool bool | Json_number int | Json_string string
  | Json_array "json_value list" | Json_object json_object

text \<open>
  \<open>load_puzzle_config\<close>: the argument is \<open>None\<close> for a missing file. The loaded value is
  returned as it is, except that a list is replaced by Python's \<open>None\<close>; JSON \<open>null\<close> is
  loaded as \<open>None\<close> as well.
\<close>

definition load_puzzle_config :: "json_value option \<Rightarrow> json_value option" where
  "load_puzzle_config file =
     (case file of
        None \<Rightarrow> None
      | Some data \<Rightarrow>
          (case data of
             Json_array xs \<Rightarrow> None
           | Json_null \<Rightarrow> None
           | _ \<Rightarrow> Some data))"

text \<open>The truth value Python gives a loaded value (\<open>if not puzzle_data\<close>).\<close>

definition truthy :: "json_value \<Rightarrow> bool" where
  "truthy v =
     (case v of
        Json_null \<Rightarrow> False
      | Json_bool b \<Rightarrow> b
      | Json_number n \<Rightarrow> n \<noteq> 0
      | Json_string s \<Rightarrow> s \<noteq> []
      | Json_array xs \<Rightarrow> xs \<noteq> []
      | Json_object d \<Rightarrow>
          rows_key d \<noteq> None \<or> cols_key d \<noteq> None \<or> pieces_key d \<noteq> None \<or>
          target_key d \<noteq> None \<or> other_keys d)"

text \<open>
  The subscripts \<open>puzzle_data["rows"]\<close>, \<open>puzzle_data["cols"]\<close> and \<open>puzzle_data["pieces"]\<close>
  at the head of \<open>generate_hypernodes\<close>: \<open>KeyError\<close> on a dictionary lacking one of the
  keys, \<open>TypeError\<close> on a value that is no dictionary. \<open>generate_hypernodes\<close> does not read
  \<open>target\<close>; the record holds the empty string when that key is absent.
\<close>

definition read_config :: "json_value \<Rightarrow> py_error + puzzle_config" where
  "read_config data =
     (case data of
        Json_object d \<Rightarrow>
          (case (rows_key d, cols_key d, pieces_key d) of
             (Some r, Some c, Some ps) \<Rightarrow>
               Inr \<lparr>rows = r, cols = c, pieces = ps,
                    target = (case target_key d of None \<Rightarrow> [] | Some t \<Rightarrow> t)\<rparr>
           | _ \<Rightarrow> Inl KeyError)
      | _ \<Rightarrow> Inl TypeError)"

text \<open>
  The start of \<open>main\<close>: load; return at once (\<open>None\<close>) when the loaded value is false;
  otherwise enumerate the hyper-nodes.
\<close>

definition main_hypernodes :: "json_value option \<Rightarrow> (py_error + piece list list) option" where
  "main_hypernodes file =
     (case load_puzzle_config file of
        None \<Rightarrow> None
      | Some puzzle_data \<Rightarrow>
          if \<not> truthy puzzle_data then None
          else Some (case read_config puzzle_data of
                       Inl e \<Rightarrow> Inl e
                     | Inr cfg \<Rightarrow> generate_hypernodes cfg))"

section \<open>Footprints and example boards\<close>

text \<open>The cells a piece covers according to its stored dimensions (none when they are missing).\<close>

definition piece_cells :: "piece \<Rightarrow> (int \<times> int) list" where
  "piece_cells p =
     (case (height p, width p) of
        (Some h, Some w) \<Rightarrow> cells (row p) (col p) h w
      | _ \<Rightarrow> [])"

text \<open>The anchor of a piece, and the pieces a super-state holds after those of its hyper-state.\<close>

definition anchor :: "piece \<Rightarrow> int \<times> int" where
  "anchor p = (row p, col p)"

definition added_blocks :: "piece list \<Rightarrow> piece list \<Rightarrow> piece list" where
  "added_blocks hyper_state st = drop (length hyper_state) st"

text \<open>
  The cells a piece covers when anchored at \<open>(r, c)\<close>, by the dimensions of its type; the
  grid; and the board states the validating generators are meant for: unique labels, known
  types, no cell shared by two pieces.
\<close>

definition type_cells :: "(piece \<Rightarrow> py_error + int \<times> int) \<Rightarrow> piece \<Rightarrow> int \<Rightarrow> int \<Rightarrow> (int \<times> int) set" where
  "type_cells dims p r c = (case dims p of Inl e \<Rightarrow> {} | Inr (h, w) \<Rightarrow> set (cells r c h w))"

definition grid :: "int \<Rightarrow> int \<Rightarrow> (int \<times> int) set" where
  "grid rws cls = {0..<rws} \<times> {0..<cls}"

definition board_state :: "(piece \<Rightarrow> py_error + int \<times> int) \<Rightarrow> piece list \<Rightarrow> bool" where
  "board_state dims ps =
     (distinct (map label ps) \<and>
      list_all (\<lambda>p. case dims p of Inl e \<Rightarrow> False | Inr hw \<Rightarrow> True) ps \<and>
      list_all (\<lambda>p. list_all (\<lambda>q. p = q \<or>
          type_cells dims p (row p) (col p) \<inter> type_cells dims q (row q) (col q) = {}) ps) ps)"

text \<open>
  A legal move: the piece \<open>p\<close> of the board \<open>ps\<close>, anchored at \<open>(r, c)\<close>, lies in the grid and
  shares no cell with another piece. A board on which no piece has a legal move.
\<close>

definition legal_shift ::
  "(piece \<Rightarrow> py_error + int \<times> int) \<Rightarrow> piece list \<Rightarrow> int \<Rightarrow> int \<Rightarrow> piece \<Rightarrow> int \<Rightarrow> int \<Rightarrow> bool" where
  "legal_shift dims ps rws cls p r c =
     (type_cells dims p r c \<subseteq> grid rws cls \<and>
      (\<forall>q \<in> set ps. q \<noteq> p \<longrightarrow>
          type_cells dims p r c \<inter> type_cells dims q (row q) (col q) = {}))"

definition no_legal_move ::
  "(piece \<Rightarrow> py_error + int \<times> int) \<Rightarrow> piece list \<Rightarrow> int \<Rightarrow> int \<Rightarrow> bool" where
  "no_legal_move dims ps rws cls =
     (\<forall>p \<in> set ps. \<forall>m \<in> set MOVES.
         \<not> legal_shift dims ps rws cls p (row p + fst (snd m)) (col p + snd (snd m)))"

text \<open>The cells of the grid that no piece of a board covers.\<close>

definition free_cells :: "piece list \<Rightarrow> int \<Rightarrow> int \<Rightarrow> (int \<times> int) set" where
  "free_cells ps rws cls =
     grid rws cls - (\<Union>p \<in> set ps. type_cells get_piece_dimensions p (row p) (col p))"

text \<open>A piece without its stored dimensions.\<close>

definition core :: "piece \<Rightarrow> piece" where
  "core p = p\<lparr>height := None, width := None\<rparr>"

text \<open>The entry of one label in the result of a validating move generator.\<close>

definition moves_of :: "string \<Rightarrow> py_error + move_dict \<times> piece list \<Rightarrow> py_error + move list option" where
  "moves_of l res = (case res of Inl e \<Rightarrow> Inl e | Inr (md, ps) \<Rightarrow> Inr (md l))"

text \<open>A 2 x 2 board: the target in the top-left corner, a unit piece below it.\<close>

definition board_2x2 :: "piece list" where
  "board_2x2 = [mk_piece ''T'' ''1x1'' 0 0, mk_piece ''B'' ''1x1'' 1 0]"

definition config_2x2 :: puzzle_config where
  "config_2x2 = \<lparr>rows = 2, cols = 2, pieces = board_2x2, target = ''T''\<rparr>"


text \<open>The target alone in the bottom-left corner of that board, as a state of each search.\<close>

definition solved_2x2 :: "piece list" where
  "solved_2x2 = [(mk_piece ''T'' ''1x1'' 1 0)\<lparr>height := Some 1, width := Some 1\<rparr>]"

definition solved_super :: super_state where
  "solved_super = \<lparr>state_pieces = solved_2x2, extra_blocks = []\<rparr>"

text \<open>
  A configuration file wrong in every respect: no rows, a negative number of columns, the
  label \<open>A\<close> twice, both pieces far outside any grid, and a target naming no piece.
\<close>

definition bad_object :: json_object where
  "bad_object =
     \<lparr>rows_key = Some 0, cols_key = Some (- 1),
      pieces_key = Some [mk_piece ''A'' ''1x1'' 5 5, mk_piece ''A'' ''1x1'' 7 7],
      target_key = Some ''Z'', other_keys = False\<rparr>"

text \<open>The empty JSON object, and an object holding only a list of pieces.\<close>

definition empty_object :: json_object where
  "empty_object =
     \<lparr>rows_key = None, cols_key = None, pieces_key = None, target_key = None,
      other_keys = False\<rparr>"

definition pieces_object :: json_object where
  "pieces_object = empty_object\<lparr>pieces_key := Some [mk_piece ''A'' ''1x1'' 5 5]\<rparr>"

text \<open>A 3 x 2 board holding only the target, and a listing of a set of its cells row by row.\<close>

definition config_3x2 :: puzzle_config where
  "config_3x2 = \<lparr>rows = 3, cols = 2, pieces = [mk_piece ''T'' ''1x1'' 0 0], target = ''T''\<rparr>"

definition row_major :: "(int \<times> int) set \<Rightarrow> (int \<times> int) list" where
  "row_major S = filter (\<lambda>cell. cell \<in> S) (cells 0 0 3 2)"

text \<open>
  A 5 x 1 board, fully packed: the target in row 3 and four unit blocks, built like those
  of \<open>generate_supernodes\<close>, in the four other cells.
\<close>

definition packed_5x1 :: "piece list" where
  "packed_5x1 =
     [(mk_piece ''T'' ''1x1'' 3 0)\<lparr>height := Some 1, width := Some 1\<rparr>,
      block (0, (0, 0)), block (1, (1, 0)), block (2, (2, 0)), block (3, (4, 0))]"

definition config_5x1 :: puzzle_config where
  "config_5x1 = \<lparr>rows = 5, cols = 1, pieces = [mk_piece ''T'' ''1x1'' 3 0], target = ''T''\<rparr>"

text \<open>A 1 x 3 board: a horizontal domino on the left, the unit target on the right.\<close>

definition config_1x3 :: puzzle_config where
  "config_1x3 =
     \<lparr>rows = 1, cols = 3, pieces = [mk_piece ''H'' ''1x2'' 0 0, mk_piece ''T'' ''1x1'' 0 2],
      target = ''T''\<rparr>"

text \<open>
  A 2 x 2 board holding only the target; the configuration carries one more key, an
  obstacle count of 2, which nothing reads.
\<close>

definition config_2x2_count :: "nat puzzle_config_scheme" where
  "config_2x2_count =
     \<lparr>rows = 2, cols = 2, pieces = [mk_piece ''T'' ''1x1'' 0 0], target = ''T'', \<dots> = 2\<rparr>"



text \<open>The target and a block beside it on the 2 x 2 board.\<close>

definition block_2x2 :: "piece list" where
  "block_2x2 = [(mk_piece ''T'' ''1x1'' 0 0)\<lparr>fixed := Some True\<rparr>, block (0, (0, 1))]"

section \<open>The canonical key\<close>

lemma board_to_tuple_mset:
  "mset ps = mset qs \<Longrightarrow> board_to_tuple ps = board_to_tuple qs"
  unfolding board_to_tuple_def
  by (rule properties_for_sort) (simp_all add: mset_map)

lemma board_to_tuple_anchor_map:
  assumes "distinct (map label ps)" "distinct (map label qs)"
  shows "(board_to_tuple ps = board_to_tuple qs) = (anchor_map ps = anchor_map qs)"
proof -
  let ?f = "\<lambda>p::piece. (label p, row p, col p)"
  let ?xs = "map ?f ps" and ?ys = "map ?f qs"
  have dx: "distinct (map fst ?xs)" and dy: "distinct (map fst ?ys)"
    using assms by (simp_all add: comp_def)
  hence d: "distinct ?xs" "distinct ?ys"
    by (metis distinct_map)+
  have "(sort ?xs = sort ?ys) = (set ?xs = set ?ys)"
  proof
    assume "sort ?xs = sort ?ys"
    hence "set (sort ?xs) = set (sort ?ys)" by simp
    thus "set ?xs = set ?ys" by simp
  next
    assume "set ?xs = set ?ys"
    thus "sort ?xs = sort ?ys"
      using d by (intro sorted_distinct_set_unique) simp_all
  qed
  also have "\<dots> = (map_of ?xs = map_of ?ys)"
    using map_of_inject_set [OF dx dy] by simp
  finally show ?thesis
    by (simp add: board_to_tuple_def anchor_map_def)
qed

text \<open>
  Claim C7. Two lists holding the same pieces in a different order get the same key; and
  for boards with unique labels, two keys are equal exactly when the two label-to-anchor
  mappings are equal, so that exchanging the anchors of two differently labelled pieces
  of the same shape changes the key.
\<close>

theorem board_to_tuple_canonical:
  "(mset ps = mset qs \<longrightarrow> board_to_tuple ps = board_to_tuple qs) \<and>
   (distinct (map label ps') \<and> distinct (map label qs') \<longrightarrow>
      (board_to_tuple ps' = board_to_tuple qs') = (anchor_map ps' = anchor_map qs'))"
  using board_to_tuple_mset board_to_tuple_anchor_map by blast

theorem board_to_tuple_canonical_witness:
  "mset [mk_piece ''A'' ''1x1'' 0 0, mk_piece ''B'' ''1x1'' 0 1]
     = mset [mk_piece ''B'' ''1x1'' 0 1, mk_piece ''A'' ''1x1'' 0 0] \<and>
   board_to_tuple [mk_piece ''A'' ''1x1'' 0 0, mk_piece ''B'' ''1x1'' 0 1]
     = board_to_tuple [mk_piece ''B'' ''1x1'' 0 1, mk_piece ''A'' ''1x1'' 0 0] \<and>
   distinct (map label [mk_piece ''A'' ''1x1'' 0 0, mk_piece ''B'' ''1x1'' 0 1]) \<and>
   distinct (map label [mk_piece ''A'' ''1x1'' 0 1, mk_piece ''B'' ''1x1'' 0 0]) \<and>
   anchor_map [mk_piece ''A'' ''1x1'' 0 0, mk_piece ''B'' ''1x1'' 0 1]
     \<noteq> anchor_map [mk_piece ''A'' ''1x1'' 0 1, mk_piece ''B'' ''1x1'' 0 0] \<and>
   board_to_tuple [mk_piece ''A'' ''1x1'' 0 0, mk_piece ''B'' ''1x1'' 0 1]
     \<noteq> board_to_tuple [mk_piece ''A'' ''1x1'' 0 1, mk_piece ''B'' ''1x1'' 0 0]"
proof -
  let ?a = "mk_piece ''A'' ''1x1'' 0 0" and ?b = "mk_piece ''B'' ''1x1'' 0 1"
  let ?a' = "mk_piece ''A'' ''1x1'' 0 1" and ?b' = "mk_piece ''B'' ''1x1'' 0 0"
  have m: "mset [?a, ?b] = mset [?b, ?a]" by simp
  have d: "distinct (map label [?a, ?b])" "distinct (map label [?a', ?b'])"
    by (simp_all add: mk_piece_def)
  have n: "anchor_map [?a, ?b] \<noteq> anchor_map [?a', ?b']"
  proof
    assume "anchor_map [?a, ?b] = anchor_map [?a', ?b']"
    hence "anchor_map [?a, ?b] ''A'' = anchor_map [?a', ?b'] ''A''" by simp
    thus False by (simp add: anchor_map_def mk_piece_def)
  qed
  show ?thesis
    using board_to_tuple_canonical [of "[?a, ?b]" "[?b, ?a]" "[?a, ?b]" "[?a', ?b']"] m d n
    by blast
qed

section \<open>Move generation\<close>

subsection \<open>The validating generators\<close>

lemma set_py_range: "set (py_range n) = {0..<n}"
  by (auto simp: py_range_def)

lemma set_cells: "set (cells r0 c0 h w) = (\<lambda>(r, c). (r0 + r, c0 + c)) ` ({0..<h} \<times> {0..<w})"
  by (auto simp: cells_def set_py_range)

lemma cells_in_grid:
  assumes "0 < h" "0 < w"
  shows "(set (cells r c h w) \<subseteq> grid rws cls) = (\<not> (r < 0 \<or> c < 0 \<or> r + h > rws \<or> c + w > cls))"
proof
  assume s: "set (cells r c h w) \<subseteq> grid rws cls"
  have "(r, c) \<in> set (cells r c h w)" "(r + (h - 1), c + (w - 1)) \<in> set (cells r c h w)"
    using assms by (auto simp: set_cells image_iff)
  with s have "(r, c) \<in> grid rws cls" "(r + (h - 1), c + (w - 1)) \<in> grid rws cls" by blast+
  thus "\<not> (r < 0 \<or> c < 0 \<or> r + h > rws \<or> c + w > cls)"
    by (auto simp: grid_def)
next
  assume "\<not> (r < 0 \<or> c < 0 \<or> r + h > rws \<or> c + w > cls)"
  thus "set (cells r c h w) \<subseteq> grid rws cls"
    by (auto simp: set_cells grid_def)
qed

lemma fold_board_update:
  "fold (\<lambda>cell b. b(cell \<mapsto> l)) cs board cell =
     (if cell \<in> set cs then Some l else board cell)"
  by (induction cs arbitrary: board) auto

text \<open>
  What \<open>create_board_representation\<close> returns: the pieces with their dimensions stored,
  and a board that is unchanged outside the pieces and holds the label of a piece on every
  cell that no other piece covers.
\<close>

lemma create_board_representation_result:
  assumes "create_board_representation dims ps board = Inr (board', ps')"
  shows "ps' = map (\<lambda>p. p\<lparr>height := Some (fst (projr (dims p))), width := Some (snd (projr (dims p)))\<rparr>) ps"
    and "\<forall>p \<in> set ps. \<exists>hw. dims p = Inr hw"
    and "\<And>cell. (\<forall>p \<in> set ps. cell \<notin> type_cells dims p (row p) (col p)) \<Longrightarrow> board' cell = board cell"
    and "\<And>cell p. p \<in> set ps \<Longrightarrow> cell \<in> type_cells dims p (row p) (col p) \<Longrightarrow>
           (\<forall>q \<in> set ps. q \<noteq> p \<longrightarrow> cell \<notin> type_cells dims q (row q) (col q)) \<Longrightarrow>
           board' cell = Some (label p)"
  using assms
proof (induction ps arbitrary: board board' ps')
  case Nil
  { case 1 then show ?case by simp }
  { case 2 then show ?case by simp }
  { case 3 then show ?case by simp }
  { case 4 then show ?case by simp }
next
  case (Cons a ps)
  { case 1
    then obtain h w b1 ps1 where d: "dims a = Inr (h, w)"
      and r: "create_board_representation dims ps
                (fold (\<lambda>cell b. b(cell \<mapsto> label a)) (cells (row a) (col a) h w) board) = Inr (b1, ps1)"
      and e: "board' = b1" "ps' = a\<lparr>height := Some h, width := Some w\<rparr> # ps1"
      by (auto split: sum.splits prod.splits)
    from Cons.IH(1) [OF r] d e show ?case by simp }
  { case 2
    then obtain h w b1 ps1 where d: "dims a = Inr (h, w)"
      and r: "create_board_representation dims ps
                (fold (\<lambda>cell b. b(cell \<mapsto> label a)) (cells (row a) (col a) h w) board) = Inr (b1, ps1)"
      by (auto split: sum.splits prod.splits)
    from Cons.IH(2) [OF r] d show ?case by simp }
  { case (3 cell)
    from 3(2) obtain h w b1 ps1 where d: "dims a = Inr (h, w)"
      and r: "create_board_representation dims ps
                (fold (\<lambda>cell b. b(cell \<mapsto> label a)) (cells (row a) (col a) h w) board) = Inr (b1, ps1)"
      and e: "board' = b1"
      by (auto split: sum.splits prod.splits)
    from 3(1) have n: "cell \<notin> set (cells (row a) (col a) h w)"
      and rest: "\<forall>p\<in>set ps. cell \<notin> type_cells dims p (row p) (col p)"
      using d by (simp_all add: type_cells_def)
    from Cons.IH(3) [OF rest r] n e show ?case by (simp add: fold_board_update) }
  { case (4 cell p)
    from 4(4) obtain h w b1 ps1 where d: "dims a = Inr (h, w)"
      and r: "create_board_representation dims ps
                (fold (\<lambda>cell b. b(cell \<mapsto> label a)) (cells (row a) (col a) h w) board) = Inr (b1, ps1)"
      and e: "board' = b1"
      by (auto split: sum.splits prod.splits)
    show ?case
    proof (cases "p \<in> set ps")
      case True
      have "\<forall>q\<in>set ps. q \<noteq> p \<longrightarrow> cell \<notin> type_cells dims q (row q) (col q)"
        using 4(3) by simp
      from Cons.IH(4) [OF True 4(2) this r] e show ?thesis by simp
    next
      case False
      with 4(1) have pa: "p = a" by simp
      have rest: "\<forall>q\<in>set ps. cell \<notin> type_cells dims q (row q) (col q)"
        using 4(3) False pa by auto
      have "cell \<in> set (cells (row a) (col a) h w)"
        using 4(2) pa d by (simp add: type_cells_def)
      with Cons.IH(3) [OF rest r] e pa show ?thesis by (simp add: fold_board_update)
    qed }
qed

lemma create_board_representation_succeeds:
  "\<forall>p \<in> set ps. \<exists>hw. dims p = Inr hw \<Longrightarrow>
     \<exists>board' ps'. create_board_representation dims ps board = Inr (board', ps')"
proof (induction ps arbitrary: board)
  case Nil
  show ?case by simp
next
  case (Cons a ps)
  from Cons.prems obtain h w where d: "dims a = Inr (h, w)" by fastforce
  from Cons.prems have "\<forall>p \<in> set ps. \<exists>hw. dims p = Inr hw" by simp
  from Cons.IH [OF this] obtain b1 ps1 where
    "create_board_representation dims ps
       (fold (\<lambda>cell b. b(cell \<mapsto> label a)) (cells (row a) (col a) h w) board) = Inr (b1, ps1)"
    by blast
  with d show ?case by simp
qed

lemma valid_moves_filter:
  assumes "\<And>r c. is_valid_move p r c board rws cls = Inr (V r c)"
  shows "valid_moves p board rws cls ms =
     Inr (map (\<lambda>(d, dr, dc). (d, row p + dr, col p + dc))
            (filter (\<lambda>(d, dr, dc). V (row p + dr) (col p + dc)) ms))"
proof (induction ms)
  case Nil
  show ?case by simp
next
  case (Cons m ms)
  obtain d dr dc where m: "m = (d, dr, dc)" by (cases m)
  show ?case unfolding m by (simp add: assms Cons.IH)
qed

lemma build_move_dict_fold:
  assumes "\<forall>p \<in> set ps. valid_moves (u p) board rws cls MOVES = Inr (F p)"
    and "\<And>p. label (u p) = label p"
  shows "build_move_dict board rws cls (map u ps) md
     = Inr (fold (\<lambda>p m. m(label p \<mapsto> F p)) ps md)"
  using assms(1) by (induction ps arbitrary: md) (simp_all add: assms(2))

lemma fold_move_dict_other:
  "l \<notin> label ` set ps \<Longrightarrow> fold (\<lambda>p m. m(label p \<mapsto> F p)) ps m l = m l"
  by (induction ps arbitrary: m) auto

lemma fold_move_dict_lookup:
  assumes "distinct (map label ps)" "p \<in> set ps"
  shows "fold (\<lambda>p m. m(label p \<mapsto> F p)) ps md (label p) = Some (F p)"
  using assms
proof (induction ps arbitrary: md)
  case Nil
  then show ?case by simp
next
  case (Cons a ps)
  show ?case
  proof (cases "p \<in> set ps")
    case True
    with Cons show ?thesis by simp
  next
    case False
    with Cons.prems have pa: "p = a" and nl: "label a \<notin> label ` set ps" by auto
    have "fold (\<lambda>p m. m(label p \<mapsto> F p)) (a # ps) md (label a)
        = fold (\<lambda>p m. m(label p \<mapsto> F p)) ps (md(label a \<mapsto> F a)) (label a)"
      by simp
    also have "\<dots> = (md(label a \<mapsto> F a)) (label a)"
      by (rule fold_move_dict_other [OF nl])
    also have "\<dots> = Some (F a)" by simp
    finally show ?thesis unfolding pa .
  qed
qed

text \<open>
  The validating generator on a board state: the entry of a piece holds a direction with
  the shifted anchor exactly when the shifted footprint lies in the grid and meets no
  other piece.
\<close>

lemma get_all_possible_moves_valid_iff:
  assumes bs: "board_state dims ps"
    and pos: "\<And>q h w. dims q = Inr (h, w) \<Longrightarrow> 0 < h \<and> 0 < w"
    and p: "p \<in> set ps"
  shows "\<exists>md ps' ms. get_all_possible_moves_valid dims ps rws cls = Inr (md, ps') \<and>
     md (label p) = Some ms \<and>
     (\<forall>d r c. ((d, r, c) \<in> set ms) =
        (\<exists>dr dc. (d, dr, dc) \<in> set MOVES \<and> r = row p + dr \<and> c = col p + dc \<and>
           type_cells dims p r c \<subseteq> grid rws cls \<and>
           (\<forall>q \<in> set ps. q \<noteq> p \<longrightarrow>
              type_cells dims p r c \<inter> type_cells dims q (row q) (col q) = {})))"
proof -
  let ?up = "\<lambda>p. p\<lparr>height := Some (fst (projr (dims p))), width := Some (snd (projr (dims p)))\<rparr>"
  let ?own = "\<lambda>q. type_cells dims q (row q) (col q)"
  from bs have dl: "distinct (map label ps)"
    and known0: "\<forall>q \<in> set ps. case dims q of Inl e \<Rightarrow> False | Inr hw \<Rightarrow> True"
    and disj0: "\<forall>q \<in> set ps. \<forall>q' \<in> set ps. q = q' \<or> ?own q \<inter> ?own q' = {}"
    by (simp_all add: board_state_def list_all_iff)
  have known: "\<forall>q \<in> set ps. \<exists>hw. dims q = Inr hw"
  proof
    fix q assume "q \<in> set ps"
    with known0 have "case dims q of Inl e \<Rightarrow> False | Inr hw \<Rightarrow> True" by blast
    thus "\<exists>hw. dims q = Inr hw" by (cases "dims q") simp_all
  qed
  have disj: "?own q \<inter> ?own q' = {}" if "q \<in> set ps" "q' \<in> set ps" "q \<noteq> q'" for q q'
    using disj0 that by blast
  from create_board_representation_succeeds [OF known] obtain board ps' where
    cbr: "create_board_representation dims ps Map.empty = Inr (board, ps')" by blast
  note res = create_board_representation_result [OF cbr]
  have free: "board cell = None" if "\<forall>q \<in> set ps. cell \<notin> ?own q" for cell
    using res(3) [OF that] by simp
  have owned: "board cell = Some (label q)" if "q \<in> set ps" "cell \<in> ?own q" for cell q
  proof (rule res(4) [OF that])
    show "\<forall>q' \<in> set ps. q' \<noteq> q \<longrightarrow> cell \<notin> ?own q'"
      using disj that by blast
  qed
  define ok where "ok q r c \<longleftrightarrow> type_cells dims q r c \<subseteq> grid rws cls \<and>
      (\<forall>q' \<in> set ps. q' \<noteq> q \<longrightarrow> type_cells dims q r c \<inter> ?own q' = {})" for q r c
  have valid: "is_valid_move (?up q) r c board rws cls = Inr (ok q r c)" if q: "q \<in> set ps" for q r c
  proof -
    from known q obtain h w where d: "dims q = Inr (h, w)" by fastforce
    from pos [OF d] have hw: "0 < h" "0 < w" by simp_all
    have tc: "type_cells dims q r c = set (cells r c h w)" by (simp add: type_cells_def d)
    have coll: "list_all (\<lambda>cell. case board cell of None \<Rightarrow> True | Some l \<Rightarrow> l = label q) (cells r c h w)
        = (\<forall>q' \<in> set ps. q' \<noteq> q \<longrightarrow> set (cells r c h w) \<inter> ?own q' = {})"
    proof
      assume a: "list_all (\<lambda>cell. case board cell of None \<Rightarrow> True | Some l \<Rightarrow> l = label q) (cells r c h w)"
      show "\<forall>q' \<in> set ps. q' \<noteq> q \<longrightarrow> set (cells r c h w) \<inter> ?own q' = {}"
      proof (intro ballI impI, rule ccontr)
        fix q' assume q': "q' \<in> set ps" "q' \<noteq> q" and ne: "set (cells r c h w) \<inter> ?own q' \<noteq> {}"
        then obtain cell where c: "cell \<in> set (cells r c h w)" "cell \<in> ?own q'" by blast
        from owned [OF q'(1) c(2)] a c(1) have "label q' = label q"
          by (auto simp: list_all_iff)
        with dl q q' show False by (auto simp: distinct_map inj_on_def)
      qed
    next
      assume a: "\<forall>q' \<in> set ps. q' \<noteq> q \<longrightarrow> set (cells r c h w) \<inter> ?own q' = {}"
      show "list_all (\<lambda>cell. case board cell of None \<Rightarrow> True | Some l \<Rightarrow> l = label q) (cells r c h w)"
        unfolding list_all_iff
      proof
        fix cell assume c: "cell \<in> set (cells r c h w)"
        show "case board cell of None \<Rightarrow> True | Some l \<Rightarrow> l = label q"
        proof (cases "\<exists>q' \<in> set ps. cell \<in> ?own q'")
          case True
          then obtain q' where q': "q' \<in> set ps" "cell \<in> ?own q'" by blast
          with a c have "q' = q" by blast
          with owned [OF q'] show ?thesis by simp
        next
          case False
          hence "board cell = None" using free by blast
          thus ?thesis by simp
        qed
      qed
    qed
    have lab: "(\<lambda>cell. case board cell of None \<Rightarrow> True | Some l \<Rightarrow> l = label (?up q))
        = (\<lambda>cell. case board cell of None \<Rightarrow> True | Some l \<Rightarrow> l = label q)"
      by (simp cong: option.case_cong)
    have "is_valid_move (?up q) r c board rws cls =
        Inr (\<not> (r < 0 \<or> c < 0 \<or> r + h > rws \<or> c + w > cls) \<and>
             list_all (\<lambda>cell. case board cell of None \<Rightarrow> True | Some l \<Rightarrow> l = label (?up q))
               (cells r c h w))"
      by (simp add: is_valid_move_def d cong: option.case_cong)
    also have "\<dots> = Inr (ok q r c)"
      unfolding lab coll ok_def tc cells_in_grid [OF hw, of r c rws cls, symmetric] by simp
    finally show ?thesis .
  qed
  define F where "F q = map (\<lambda>(d, dr, dc). (d, row q + dr, col q + dc))
      (filter (\<lambda>(d, dr, dc). ok q (row q + dr) (col q + dc)) MOVES)" for q
  have vm: "valid_moves (?up q) board rws cls MOVES = Inr (F q)" if "q \<in> set ps" for q
    using valid_moves_filter [of "?up q" board rws cls "ok q" MOVES] valid [OF that]
    by (simp add: F_def)
  have ps': "ps' = map ?up ps" using res(1) .
  have bmd: "build_move_dict board rws cls ps' Map.empty
      = Inr (fold (\<lambda>q m. m(label q \<mapsto> F q)) ps Map.empty)"
    unfolding ps' by (rule build_move_dict_fold) (simp_all add: vm)
  let ?md = "fold (\<lambda>q m. m(label q \<mapsto> F q)) ps Map.empty"
  have gen: "get_all_possible_moves_valid dims ps rws cls = Inr (?md, ps')"
    by (simp add: get_all_possible_moves_valid_def cbr bmd)
  have look: "?md (label p) = Some (F p)"
    by (rule fold_move_dict_lookup [OF dl p])
  have mem: "((d, r, c) \<in> set (F p)) =
        (\<exists>dr dc. (d, dr, dc) \<in> set MOVES \<and> r = row p + dr \<and> c = col p + dc \<and> ok p r c)" for d r c
    by (force simp: F_def)
  show ?thesis
    using gen look mem unfolding ok_def by blast
qed

lemma get_piece_dimensions_pos:
  "get_piece_dimensions q = Inr (h, w) \<Longrightarrow> 0 < h \<and> 0 < w"
  "get_piece_dimensions_simple q = Inr (h, w) \<Longrightarrow> 0 < h \<and> 0 < w"
  by (auto simp: get_piece_dimensions_def get_piece_dimensions_simple_def split: if_splits)

subsection \<open>The generator of shortestMoves.py\<close>

text \<open>
  Claim C2. On the 2 x 2 board with the target at (0, 0) and a unit piece at (1, 0), the
  move generator of shortestMoves.py lists all four shifted anchors for the target: two of
  them leave the grid and one lands on the other piece. The validating generator of
  potentialMoves.py and simpleShortestMoves.py lists the one legal move, to the right.
\<close>

theorem get_all_possible_moves_unchecked:
  "get_all_possible_moves board_2x2 2 2 ''T''
     = Some [(Up, - 1, 0), (Down, 1, 0), (Left, 0, - 1), (Right, 0, 1)] \<and>
   moves_of ''T'' (get_all_possible_moves_valid get_piece_dimensions board_2x2 2 2)
     = Inr (Some [(Right, 0, 1)])"
  by code_simp

subsection \<open>The mobility flag\<close>

lemma create_board_representation_erase:
  assumes "\<And>p. dims (p\<lparr>fixed := None\<rparr>) = dims p"
  shows "create_board_representation dims (map (\<lambda>p. p\<lparr>fixed := None\<rparr>) ps) b =
     map_sum id (map_prod id (map (\<lambda>p. p\<lparr>fixed := None\<rparr>))) (create_board_representation dims ps b)"
  by (induction ps arbitrary: b) (auto simp: assms split: sum.splits)

lemma is_valid_move_erase:
  "is_valid_move (p\<lparr>fixed := None\<rparr>) r c b rws cls = is_valid_move p r c b rws cls"
  by (simp add: is_valid_move_def cong: option.case_cong if_cong)

lemma valid_moves_erase:
  "valid_moves (p\<lparr>fixed := None\<rparr>) b rws cls ms = valid_moves p b rws cls ms"
proof (induction ms)
  case Nil
  show ?case by simp
next
  case (Cons m ms)
  obtain d dr dc where m: "m = (d, dr, dc)" by (cases m)
  show ?case
    unfolding m valid_moves.simps Cons.IH is_valid_move_erase
    by (simp split: sum.splits)
qed

lemma build_move_dict_erase:
  "build_move_dict b rws cls (map (\<lambda>p. p\<lparr>fixed := None\<rparr>) ps) md = build_move_dict b rws cls ps md"
  by (induction ps arbitrary: md) (auto simp: valid_moves_erase split: sum.splits)

lemma get_all_possible_moves_valid_erase:
  assumes "\<And>p. dims (p\<lparr>fixed := None\<rparr>) = dims p"
  shows "map_sum id fst (get_all_possible_moves_valid dims (map (\<lambda>p. p\<lparr>fixed := None\<rparr>) ps) rws cls) =
     map_sum id fst (get_all_possible_moves_valid dims ps rws cls)"
  by (auto simp: get_all_possible_moves_valid_def
      create_board_representation_erase [where dims = dims, OF assms]
      build_move_dict_erase split: sum.splits)

lemma get_all_possible_moves_erase_aux:
  "fold (\<lambda>p md. md(label p \<mapsto> map (\<lambda>(d, dr, dc). (d, row p + dr, col p + dc)) MOVES))
      (map (\<lambda>p. p\<lparr>fixed := None\<rparr>) ps) md =
   fold (\<lambda>p md. md(label p \<mapsto> map (\<lambda>(d, dr, dc). (d, row p + dr, col p + dc)) MOVES)) ps md"
  by (induction ps arbitrary: md) simp_all

lemma get_all_possible_moves_entry_aux:
  "fold (\<lambda>p md. md(label p \<mapsto> map (\<lambda>(d, dr, dc). (d, row p + dr, col p + dc)) MOVES)) ps md l = Some ms
    \<Longrightarrow> md l = Some ms \<or> length ms = 4"
proof (induction ps arbitrary: md)
  case Nil
  then show ?case by simp
next
  case (Cons a ps)
  let ?X = "map (\<lambda>(d, dr, dc). (d, row a + dr, col a + dc)) MOVES"
  from Cons.prems have "(md(label a \<mapsto> ?X)) l = Some ms \<or> length ms = 4"
    using Cons.IH [of "md(label a \<mapsto> ?X)"] by simp
  moreover have "length ?X = 4" by (simp add: MOVES_def)
  ultimately show ?case by (auto split: if_splits)
qed

lemma get_all_possible_moves_dom_aux:
  "dom (fold (\<lambda>p md. md(label p \<mapsto> map (\<lambda>(d, dr, dc). (d, row p + dr, col p + dc)) MOVES)) ps md)
     = dom md \<union> label ` set ps"
  by (induction ps arbitrary: md) auto

lemma get_all_possible_moves_four:
  assumes "p \<in> set ps"
  shows "\<exists>ms. get_all_possible_moves ps rws cls (label p) = Some ms \<and> length ms = 4"
proof -
  have "label p \<in> dom (get_all_possible_moves ps rws cls)"
    using assms by (simp add: get_all_possible_moves_def get_all_possible_moves_dom_aux)
  then obtain ms where ms: "get_all_possible_moves ps rws cls (label p) = Some ms" by blast
  hence "length ms = 4"
    using get_all_possible_moves_entry_aux [of ps Map.empty "label p" ms]
    by (simp add: get_all_possible_moves_def)
  with ms show ?thesis by blast
qed

text \<open>The generator of March3/generate_states.py.\<close>

lemma dimensions_march3_erase: "dimensions_march3 (p\<lparr>fixed := None\<rparr>) = dimensions_march3 p"
  by (simp add: dimensions_march3_def)

lemma board_march3_erase: "board_march3 (map (\<lambda>p. p\<lparr>fixed := None\<rparr>) ps) = board_march3 ps"
  by (simp add: board_march3_def fold_map comp_def dimensions_march3_erase cong: prod.case_cong)

lemma moves_march3_erase:
  "moves_march3 (p\<lparr>fixed := None\<rparr>) b rws cls = moves_march3 p b rws cls"
  by (simp add: moves_march3_def dimensions_march3_erase
      cong: prod.case_cong option.case_cong)

lemma get_all_possible_moves_march3_erase:
  "get_all_possible_moves_march3 (map (\<lambda>p. p\<lparr>fixed := None\<rparr>) ps) rws cls
     = get_all_possible_moves_march3 ps rws cls"
  by (simp add: get_all_possible_moves_march3_def fold_map comp_def board_march3_erase
      moves_march3_erase cong: if_cong)

lemma get_all_possible_moves_march3_unit:
  assumes "distinct (map label ps)" "p \<in> set ps" "piece_type p \<notin> {''1x2'', ''2x1''}"
  shows "get_all_possible_moves_march3 ps rws cls (label p) = Some []"
  using fold_move_dict_lookup [where F = "\<lambda>p. if piece_type p \<in> {''1x2'', ''2x1''}
      then moves_march3 p (board_march3 ps) rws cls else []", OF assms(1,2)] assms(3)
  by (simp add: get_all_possible_moves_march3_def)

text \<open>
  Claim C8, as stated, fails: a piece marked fixed, alone on a 2 x 2 board, is given its
  two legal moves by the validating generator.
\<close>

theorem fixed_piece_moves:
  "moves_of ''T'' (get_all_possible_moves_valid get_piece_dimensions
      [(mk_piece ''T'' ''1x1'' 0 0)\<lparr>fixed := Some True\<rparr>] 2 2)
     = Inr (Some [(Down, 1, 0), (Right, 0, 1)])"
  by code_simp

text \<open>
  Claim C8, amended. The move generators of potentialMoves.py, shortestMoves.py and
  March3/generate_states.py read no mobility flag: erasing the \<open>fixed\<close> key of every piece
  leaves the move dictionary of each unchanged. In potentialMoves.py every piece of a
  board state gets exactly its legal moves, a piece marked fixed like any other; and so
  does a unit block built by \<open>generate_supernodes\<close>, which is a piece of type 1x1 without a
  \<open>fixed\<close> key. In March3/generate_states.py it is the type that decides: a piece that is
  no domino, hence every unit block, gets the empty list.
\<close>

theorem moves_ignore_fixed_flag:
  "map_sum id fst (get_all_possible_moves_valid get_piece_dimensions
        (map (\<lambda>p. p\<lparr>fixed := None\<rparr>) ps) rws cls)
     = map_sum id fst (get_all_possible_moves_valid get_piece_dimensions ps rws cls) \<and>
   get_all_possible_moves (map (\<lambda>p. p\<lparr>fixed := None\<rparr>) ps) rws cls
     = get_all_possible_moves ps rws cls \<and>
   (board_state get_piece_dimensions bs \<and> p \<in> set bs \<longrightarrow>
      (\<exists>md bs' ms. get_all_possible_moves_valid get_piece_dimensions bs rws cls = Inr (md, bs') \<and>
          md (label p) = Some ms \<and>
          (\<forall>d r c. ((d, r, c) \<in> set ms) =
             (\<exists>dr dc. (d, dr, dc) \<in> set MOVES \<and> r = row p + dr \<and> c = col p + dc \<and>
                 legal_shift get_piece_dimensions bs rws cls p r c)))) \<and>
   fixed (block ic) = None \<and> piece_type (block ic) = ''1x1'' \<and>
   get_all_possible_moves_march3 (map (\<lambda>p. p\<lparr>fixed := None\<rparr>) ps) rws cls
     = get_all_possible_moves_march3 ps rws cls \<and>
   (distinct (map label us) \<and> u \<in> set us \<and> piece_type u \<notin> {''1x2'', ''2x1''} \<longrightarrow>
      get_all_possible_moves_march3 us rws cls (label u) = Some [])"
proof (intro conjI impI)
  show "map_sum id fst (get_all_possible_moves_valid get_piece_dimensions
        (map (\<lambda>p. p\<lparr>fixed := None\<rparr>) ps) rws cls)
     = map_sum id fst (get_all_possible_moves_valid get_piece_dimensions ps rws cls)"
    by (rule get_all_possible_moves_valid_erase) (simp add: get_piece_dimensions_def)
next
  show "get_all_possible_moves (map (\<lambda>p. p\<lparr>fixed := None\<rparr>) ps) rws cls
     = get_all_possible_moves ps rws cls"
    by (simp add: get_all_possible_moves_def get_all_possible_moves_erase_aux)
next
  assume "board_state get_piece_dimensions bs \<and> p \<in> set bs"
  hence b: "board_state get_piece_dimensions bs" and p: "p \<in> set bs" by simp_all
  from get_all_possible_moves_valid_iff [where rws = rws and cls = cls,
      OF b get_piece_dimensions_pos(1) p]
  show "\<exists>md bs' ms. get_all_possible_moves_valid get_piece_dimensions bs rws cls = Inr (md, bs') \<and>
          md (label p) = Some ms \<and>
          (\<forall>d r c. ((d, r, c) \<in> set ms) =
             (\<exists>dr dc. (d, dr, dc) \<in> set MOVES \<and> r = row p + dr \<and> c = col p + dc \<and>
                 legal_shift get_piece_dimensions bs rws cls p r c))"
    unfolding legal_shift_def .
next
  show "fixed (block ic) = None" by (cases ic) (simp add: block_def)
next
  show "piece_type (block ic) = ''1x1''" by (cases ic) (simp add: block_def)
next
  show "get_all_possible_moves_march3 (map (\<lambda>p. p\<lparr>fixed := None\<rparr>) ps) rws cls
     = get_all_possible_moves_march3 ps rws cls"
    by (rule get_all_possible_moves_march3_erase)
next
  assume "distinct (map label us) \<and> u \<in> set us \<and> piece_type u \<notin> {''1x2'', ''2x1''}"
  thus "get_all_possible_moves_march3 us rws cls (label u) = Some []"
    using get_all_possible_moves_march3_unit [of us u rws cls] by blast
qed

theorem moves_ignore_fixed_flag_witness:
  "board_state get_piece_dimensions block_2x2 \<and>
   block (0, (0, 1)) \<in> set block_2x2 \<and>
   moves_of (label (block (0, (0, 1))))
      (get_all_possible_moves_valid get_piece_dimensions block_2x2 2 2)
     = Inr (Some [(Down, 1, 1)]) \<and>
   (\<exists>md bs' ms. get_all_possible_moves_valid get_piece_dimensions block_2x2 2 2 = Inr (md, bs') \<and>
       md (label (block (0, (0, 1)))) = Some ms \<and>
       (\<forall>d r c. ((d, r, c) \<in> set ms) =
          (\<exists>dr dc. (d, dr, dc) \<in> set MOVES \<and> r = row (block (0, (0, 1))) + dr \<and>
              c = col (block (0, (0, 1))) + dc \<and>
              legal_shift get_piece_dimensions block_2x2 2 2 (block (0, (0, 1))) r c))) \<and>
   distinct (map label block_2x2) \<and>
   piece_type (block (0, (0, 1))) \<notin> {''1x2'', ''2x1''} \<and>
   get_all_possible_moves_march3 block_2x2 2 2 (label (block (0, (0, 1)))) = Some []"
proof -
  note inst = moves_ignore_fixed_flag [where bs = block_2x2 and p = "block (0, (0, 1))"
      and rws = 2 and cls = 2 and us = block_2x2 and u = "block (0, (0, 1))"]
  note k = inst [THEN conjunct2, THEN conjunct2, THEN conjunct1, rule_format]
  note m = inst [THEN conjunct2, THEN conjunct2, THEN conjunct2, THEN conjunct2,
      THEN conjunct2, THEN conjunct2, rule_format]
  have h4: "distinct (map label block_2x2)" by code_simp
  have h5: "piece_type (block (0, (0, 1))) \<notin> {''1x2'', ''2x1''}" by code_simp
  have h1: "board_state get_piece_dimensions block_2x2" by code_simp
  have h2: "block (0, (0, 1)) \<in> set block_2x2" by code_simp
  have h3: "moves_of (label (block (0, (0, 1))))
      (get_all_possible_moves_valid get_piece_dimensions block_2x2 2 2)
     = Inr (Some [(Down, 1, 1)])" by code_simp
  show ?thesis
    by (intro conjI) (rule h1 h2 h3 k [OF conjI [OF h1 h2]] h4 h5
        m [OF conjI [OF h4 conjI [OF h2 h5]]])+
qed

section \<open>Enumeration of hyper-nodes and super-nodes\<close>

lemma length_combinations: "length (combinations xs k) = length xs choose k"
  by (induction xs k rule: combinations.induct) simp_all

lemma combinations_length: "c \<in> set (combinations xs k) \<Longrightarrow> length c = k"
  by (induction xs k arbitrary: c rule: combinations.induct) auto

lemma combinations_subset: "c \<in> set (combinations xs k) \<Longrightarrow> set c \<subseteq> set xs"
  by (induction xs k arbitrary: c rule: combinations.induct) fastforce+

lemma combinations_distinct_elems:
  "distinct xs \<Longrightarrow> c \<in> set (combinations xs k) \<Longrightarrow> distinct c"
proof (induction xs k arbitrary: c rule: combinations.induct)
  case (3 x xs k)
  from "3.prems" have x: "x \<notin> set xs" and dxs: "distinct xs" by simp_all
  from "3.prems"(2) consider c' where "c = x # c'" "c' \<in> set (combinations xs k)"
    | "c \<in> set (combinations xs (Suc k))" by auto
  then show ?case
  proof cases
    case 1
    have "distinct c'" using "3.IH"(1) [OF dxs 1(2)] .
    moreover have "x \<notin> set c'" using combinations_subset [OF 1(2)] x by blast
    ultimately show ?thesis using 1(1) by simp
  next
    case 2
    show ?thesis using "3.IH"(2) [OF dxs 2] .
  qed
qed simp_all

lemma combinations_distinct_sets:
  "distinct xs \<Longrightarrow> distinct (map set (combinations xs k))"
proof (induction xs k rule: combinations.induct)
  case (3 x xs k)
  from "3.prems" have xs: "x \<notin> set xs" and dxs: "distinct xs" by simp_all
  have x: "x \<notin> set c" if "c \<in> set (combinations xs j)" for c j
    using combinations_subset [OF that] xs by blast
  have inj: "inj_on (\<lambda>c. insert x (set c)) (set (combinations xs k))"
  proof (rule inj_onI)
    fix c c' assume c: "c \<in> set (combinations xs k)" and c': "c' \<in> set (combinations xs k)"
      and e: "insert x (set c) = insert x (set c')"
    have "set c = set c'" using e x [OF c] x [OF c'] by (metis insert_ident)
    moreover have "inj_on set (set (combinations xs k))"
      using "3.IH"(1) [OF dxs] by (simp add: distinct_map)
    ultimately show "c = c'" using c c' by (simp add: inj_on_def)
  qed
  have dc: "distinct (combinations xs k)"
    using "3.IH"(1) [OF dxs] by (simp add: distinct_map)
  have d1: "distinct (map (\<lambda>c. insert x (set c)) (combinations xs k))"
    using inj dc by (simp add: distinct_map)
  have d2: "distinct (map set (combinations xs (Suc k)))"
    using "3.IH"(2) [OF dxs] .
  have d3: "insert x (set c) \<noteq> set c'"
    if "c' \<in> set (combinations xs (Suc k))" for c c'
    using x [OF that] by blast
  have eq: "map set (combinations (x # xs) (Suc k)) =
        map (\<lambda>c. insert x (set c)) (combinations xs k) @ map set (combinations xs (Suc k))"
    by (simp add: comp_def)
  show ?case
    unfolding eq distinct_append using d1 d2 d3 by auto
qed simp_all

lemma combinations_all_subsets:
  assumes "distinct xs"
  shows "set ` set (combinations xs k) = {C. C \<subseteq> set xs \<and> card C = k}"
proof (rule card_subset_eq)
  show "finite {C. C \<subseteq> set xs \<and> card C = k}" by simp
  show "set ` set (combinations xs k) \<subseteq> {C. C \<subseteq> set xs \<and> card C = k}"
  proof
    fix C assume "C \<in> set ` set (combinations xs k)"
    then obtain c where c: "c \<in> set (combinations xs k)" and C: "C = set c" by blast
    have "card (set c) = length c"
      using combinations_distinct_elems [OF assms c] by (rule distinct_card)
    thus "C \<in> {C. C \<subseteq> set xs \<and> card C = k}"
      using combinations_subset [OF c] combinations_length [OF c] C by simp
  qed
  have "card (set ` set (combinations xs k)) = card (set (map set (combinations xs k)))"
    by simp
  also have "\<dots> = length (map set (combinations xs k))"
    using combinations_distinct_sets [OF assms, of k] by (rule distinct_card)
  also have "\<dots> = card (set xs) choose k"
    using assms by (simp add: length_combinations distinct_card)
  also have "\<dots> = card {C. C \<subseteq> set xs \<and> card C = k}"
    by (simp add: n_subsets)
  finally show "card (set ` set (combinations xs k)) = card {C. C \<subseteq> set xs \<and> card C = k}" .
qed

lemma occupy_result:
  "occupy ps occ = Inr (occ', ps') \<Longrightarrow>
     length ps' = length ps \<and> map label ps' = map label ps \<and> map anchor ps' = map anchor ps \<and>
     occ' = occ \<union> (\<Union>p\<in>set ps'. set (piece_cells p))"
proof (induction ps arbitrary: occ occ' ps')
  case Nil
  then show ?case by simp
next
  case (Cons p ps)
  from Cons.prems obtain h w p' occ1 ps1 where
    d: "(case (height p, width p) of
              (Some h, Some w) \<Rightarrow> Inr (h, w, p)
            | _ \<Rightarrow> (case get_piece_dimensions p of
                      Inl e \<Rightarrow> Inl e
                    | Inr (h, w) \<Rightarrow> Inr (h, w, p\<lparr>height := Some h, width := Some w\<rparr>))) = Inr (h, w, p')"
    and r: "occupy ps (occ \<union> set (cells (row p) (col p) h w)) = Inr (occ1, ps1)"
    and e: "occ' = occ1" "ps' = p' # ps1"
    by (auto split: sum.splits prod.splits)
  from d have p': "label p' = label p" "anchor p' = anchor p" "piece_cells p' = cells (row p) (col p) h w"
    by (auto simp: anchor_def piece_cells_def split: option.splits sum.splits prod.splits)
  from Cons.IH [OF r] p' e show ?case by auto
qed

lemma anchor_block: "map anchor (map block (enumerate n combo)) = combo"
  by (induction combo arbitrary: n) (simp_all add: block_def anchor_def)

lemma block_unit:
  "b \<in> set (map block (enumerate n combo)) \<Longrightarrow>
     piece_type b = ''1x1'' \<and> height b = Some 1 \<and> width b = Some 1 \<and> fixed b = None"
  by (auto simp: block_def)

lemma combinations_short:
  assumes "length xs < k"
  shows "combinations xs k = []"
proof -
  have "length (combinations xs k) = 0"
    using assms by (simp add: length_combinations)
  thus ?thesis by simp
qed

text \<open>
  The first loop of \<open>generate_supernodes\<close> on pieces of known types whose stored
  dimensions, where both are there, are those of the type: it collects the cells of all
  pieces and changes nothing but the stored dimensions.
\<close>

lemma occupy_type_cells:
  assumes "\<forall>p \<in> set ps. \<exists>h w. get_piece_dimensions p = Inr (h, w) \<and>
             (height p = None \<or> width p = None \<or> (height p = Some h \<and> width p = Some w))"
  shows "\<exists>ps'. occupy ps occ
       = Inr (occ \<union> (\<Union>p \<in> set ps. type_cells get_piece_dimensions p (row p) (col p)), ps') \<and>
     map core ps' = map core ps"
  using assms
proof (induction ps arbitrary: occ)
  case Nil
  show ?case by simp
next
  case (Cons p ps)
  from Cons.prems obtain h w where d: "get_piece_dimensions p = Inr (h, w)"
    and st: "height p = None \<or> width p = None \<or> (height p = Some h \<and> width p = Some w)"
    by auto
  have tc: "type_cells get_piece_dimensions p (row p) (col p) = set (cells (row p) (col p) h w)"
    by (simp add: type_cells_def d)
  from Cons.prems have
    "\<forall>p \<in> set ps. \<exists>h w. get_piece_dimensions p = Inr (h, w) \<and>
             (height p = None \<or> width p = None \<or> (height p = Some h \<and> width p = Some w))"
    by simp
  from Cons.IH [OF this, of "occ \<union> set (cells (row p) (col p) h w)"] obtain ps' where
    r: "occupy ps (occ \<union> set (cells (row p) (col p) h w))
       = Inr (occ \<union> set (cells (row p) (col p) h w) \<union>
              (\<Union>p \<in> set ps. type_cells get_piece_dimensions p (row p) (col p)), ps')"
    and c: "map core ps' = map core ps" by blast
  obtain p' where
    e: "(case (height p, width p) of
              (Some h, Some w) \<Rightarrow> Inr (h, w, p)
            | _ \<Rightarrow> (case get_piece_dimensions p of
                      Inl e \<Rightarrow> Inl e
                    | Inr (h, w) \<Rightarrow> Inr (h, w, p\<lparr>height := Some h, width := Some w\<rparr>)))
         = Inr (h, w, p')"
    and p': "core p' = core p"
    using st d by (cases "height p"; cases "width p") (auto simp: core_def)
  have "occupy (p # ps) occ
      = Inr (occ \<union> set (cells (row p) (col p) h w) \<union>
              (\<Union>p \<in> set ps. type_cells get_piece_dimensions p (row p) (col p)), p' # ps')"
    unfolding occupy.simps e by (simp add: r)
  moreover have "occ \<union> set (cells (row p) (col p) h w) \<union>
              (\<Union>p \<in> set ps. type_cells get_piece_dimensions p (row p) (col p))
      = occ \<union> (\<Union>p \<in> set (p # ps). type_cells get_piece_dimensions p (row p) (col p))"
    using tc by auto
  moreover have "map core (p' # ps') = map core (p # ps)" using p' c by simp
  ultimately show ?case by metis
qed

lemma cells_grid: "set (cells 0 0 rws cls) = grid rws cls"
  by (auto simp: set_cells grid_def)

text \<open>
  Claim C6, as stated, fails: no obstacle count can be requested. On the 2 x 2 board
  holding only the target three cells are empty, and the configuration asks for 2 blocks:
  the empty cells are not fewer than the blocks asked for and there are 3 ways to place
  them, yet \<open>generate_supernodes\<close>, which always places 4, returns the empty list.
\<close>

theorem generate_supernodes_count_ignored:
  "puzzle_config.more config_2x2_count = 2 \<and>
   card (free_cells (pieces config_2x2_count) (rows config_2x2_count) (cols config_2x2_count)) = 3 \<and>
   \<not> card (free_cells (pieces config_2x2_count) (rows config_2x2_count) (cols config_2x2_count))
       < puzzle_config.more config_2x2_count \<and>
   card (free_cells (pieces config_2x2_count) (rows config_2x2_count) (cols config_2x2_count))
     choose puzzle_config.more config_2x2_count = 3 \<and>
   set (row_major (free_cells (pieces config_2x2_count) (rows config_2x2_count) (cols config_2x2_count)))
     = free_cells (pieces config_2x2_count) (rows config_2x2_count) (cols config_2x2_count) \<and>
   distinct (row_major (free_cells (pieces config_2x2_count) (rows config_2x2_count)
     (cols config_2x2_count))) \<and>
   generate_supernodes row_major (pieces config_2x2_count) config_2x2_count = Inr []"
  by code_simp

text \<open>
  Claim C6, amended: the number of blocks is 4, whatever the configuration holds. Let the
  pieces of the hyper-state have known types, with stored dimensions that are those of the
  type, and let \<open>E\<close> be the set of the cells of the grid that no piece covers, listed
  faithfully (every cell once). Then \<open>generate_supernodes\<close> returns a list of
  super-states, which is empty when \<open>E\<close> has fewer than 4 cells and has \<open>card E choose 4\<close>
  elements otherwise; every super-state is the hyper-state followed by exactly 4 unit
  blocks on distinct cells of \<open>E\<close>; and the sets of block cells are pairwise different and
  are all the 4-element subsets of \<open>E\<close>: one super-state per combination.
\<close>

theorem generate_supernodes_combinations:
  fixes cfg :: "'a puzzle_config_scheme"
  assumes dims: "\<forall>p \<in> set hyper_state. \<exists>h w. get_piece_dimensions p = Inr (h, w) \<and>
             (height p = None \<or> width p = None \<or> (height p = Some h \<and> width p = Some w))"
    and order: "set (set_order (free_cells hyper_state (rows cfg) (cols cfg)))
                  = free_cells hyper_state (rows cfg) (cols cfg)"
               "distinct (set_order (free_cells hyper_state (rows cfg) (cols cfg)))"
  shows "\<exists>sts. generate_supernodes set_order hyper_state cfg = Inr sts \<and>
     (card (free_cells hyper_state (rows cfg) (cols cfg)) < 4 \<longrightarrow> sts = []) \<and>
     length sts = card (free_cells hyper_state (rows cfg) (cols cfg)) choose 4 \<and>
     (\<forall>st \<in> set sts.
         map core (take (length hyper_state) st) = map core hyper_state \<and>
         length (added_blocks hyper_state st) = 4 \<and>
         distinct (map anchor (added_blocks hyper_state st)) \<and>
         (\<forall>b \<in> set (added_blocks hyper_state st).
             piece_type b = ''1x1'' \<and> height b = Some 1 \<and> width b = Some 1 \<and>
             anchor b \<in> free_cells hyper_state (rows cfg) (cols cfg))) \<and>
     distinct (map (\<lambda>st. set (map anchor (added_blocks hyper_state st))) sts) \<and>
     (\<lambda>st. set (map anchor (added_blocks hyper_state st))) ` set sts
       = {C. C \<subseteq> free_cells hyper_state (rows cfg) (cols cfg) \<and> card C = 4}"
proof -
  let ?E = "free_cells hyper_state (rows cfg) (cols cfg)"
  let ?es = "set_order ?E"
  from occupy_type_cells [OF dims, of "{}"] obtain hs' where
    occ: "occupy hyper_state {}
       = Inr ((\<Union>p \<in> set hyper_state. type_cells get_piece_dimensions p (row p) (col p)), hs')"
    and hs': "map core hs' = map core hyper_state" by auto
  let ?f = "\<lambda>combo. hs' @ map block (enumerate 0 combo)"
  let ?sts = "map ?f (combinations ?es 4)"
  let ?cells = "\<lambda>st. set (map anchor (added_blocks hyper_state st))"
  have len: "length hs' = length hyper_state"
    using hs' by (metis length_map)
  have card: "card ?E = length ?es"
    using order distinct_card [of ?es] by simp
  have E: "set (cells 0 0 (rows cfg) (cols cfg))
      - (\<Union>p \<in> set hyper_state. type_cells get_piece_dimensions p (row p) (col p)) = ?E"
    by (simp add: free_cells_def cells_grid)
  have gen: "generate_supernodes set_order hyper_state cfg = Inr ?sts"
    unfolding generate_supernodes_def occ
    using combinations_short [of ?es 4]
    by (simp add: Let_def E not_le)
  have added: "added_blocks hyper_state (?f combo) = map block (enumerate 0 combo)" for combo
    by (simp add: added_blocks_def len)
  have anch: "map anchor (added_blocks hyper_state (?f combo)) = combo" for combo
    by (simp only: added anchor_block)
  have short: "card ?E < 4 \<longrightarrow> ?sts = []"
    using combinations_short [of ?es 4] card by simp
  have count: "length ?sts = card ?E choose 4"
    by (simp add: length_combinations card)
  have each: "map core (take (length hyper_state) st) = map core hyper_state \<and>
         length (added_blocks hyper_state st) = 4 \<and>
         distinct (map anchor (added_blocks hyper_state st)) \<and>
         (\<forall>b \<in> set (added_blocks hyper_state st).
             piece_type b = ''1x1'' \<and> height b = Some 1 \<and> width b = Some 1 \<and>
             anchor b \<in> ?E)" if "st \<in> set ?sts" for st
  proof -
    from that obtain combo where c: "combo \<in> set (combinations ?es 4)" and st: "st = ?f combo"
      by auto
    have l: "length combo = 4" using combinations_length [OF c] .
    have d: "distinct combo" using combinations_distinct_elems [OF order(2) c] .
    have s: "set combo \<subseteq> ?E" using combinations_subset [OF c] order(1) by simp
    have t: "map core (take (length hyper_state) st) = map core hyper_state"
      using st len hs' by simp
    have a: "anchor b \<in> ?E" if "b \<in> set (added_blocks hyper_state st)" for b
    proof -
      from that have "anchor b \<in> set (map anchor (added_blocks hyper_state st))" by simp
      thus ?thesis using s unfolding st anch by blast
    qed
    have u: "piece_type b = ''1x1'' \<and> height b = Some 1 \<and> width b = Some 1"
      if "b \<in> set (added_blocks hyper_state st)" for b
      using that block_unit [of b 0 combo] unfolding st added by simp
    have "length (added_blocks hyper_state st) = 4" unfolding st added using l by simp
    moreover have "distinct (map anchor (added_blocks hyper_state st))" unfolding st anch using d .
    ultimately show ?thesis using t a u by blast
  qed
  have cells_eq: "map ?cells ?sts = map set (combinations ?es 4)"
    by (simp only: map_map comp_def anch)
  have dist: "distinct (map ?cells ?sts)"
    unfolding cells_eq using combinations_distinct_sets [OF order(2)] .
  have "?cells ` set ?sts = set (map ?cells ?sts)" by (simp only: set_map)
  also have "\<dots> = set ` set (combinations ?es 4)" unfolding cells_eq by (simp only: set_map)
  also have "\<dots> = {C. C \<subseteq> ?E \<and> card C = 4}"
    using combinations_all_subsets [OF order(2), of 4] order(1) by simp
  finally have all: "?cells ` set ?sts = {C. C \<subseteq> ?E \<and> card C = 4}" .
  show ?thesis
    using gen short count each dist all by blast
qed

theorem generate_supernodes_combinations_witness:
  "map (\<lambda>p. (get_piece_dimensions p, height p, width p)) (pieces config_3x2)
     = [(Inr (1, 1), None, None)] \<and>
   set (row_major (free_cells (pieces config_3x2) (rows config_3x2) (cols config_3x2)))
     = free_cells (pieces config_3x2) (rows config_3x2) (cols config_3x2) \<and>
   distinct (row_major (free_cells (pieces config_3x2) (rows config_3x2) (cols config_3x2))) \<and>
   card (free_cells (pieces config_3x2) (rows config_3x2) (cols config_3x2)) = 5 \<and>
   (\<exists>sts. generate_supernodes row_major (pieces config_3x2) config_3x2 = Inr sts \<and>
     (card (free_cells (pieces config_3x2) (rows config_3x2) (cols config_3x2)) < 4 \<longrightarrow> sts = []) \<and>
     length sts = card (free_cells (pieces config_3x2) (rows config_3x2) (cols config_3x2)) choose 4 \<and>
     (\<forall>st \<in> set sts.
         map core (take (length (pieces config_3x2)) st) = map core (pieces config_3x2) \<and>
         length (added_blocks (pieces config_3x2) st) = 4 \<and>
         distinct (map anchor (added_blocks (pieces config_3x2) st)) \<and>
         (\<forall>b \<in> set (added_blocks (pieces config_3x2) st).
             piece_type b = ''1x1'' \<and> height b = Some 1 \<and> width b = Some 1 \<and>
             anchor b \<in> free_cells (pieces config_3x2) (rows config_3x2) (cols config_3x2))) \<and>
     distinct (map (\<lambda>st. set (map anchor (added_blocks (pieces config_3x2) st))) sts) \<and>
     (\<lambda>st. set (map anchor (added_blocks (pieces config_3x2) st))) ` set sts
       = {C. C \<subseteq> free_cells (pieces config_3x2) (rows config_3x2) (cols config_3x2) \<and> card C = 4})"
proof -
  have h1: "\<forall>p \<in> set (pieces config_3x2). \<exists>h w. get_piece_dimensions p = Inr (h, w) \<and>
       (height p = None \<or> width p = None \<or> (height p = Some h \<and> width p = Some w))"
    by (simp add: config_3x2_def mk_piece_def get_piece_dimensions_def)
  have h: "set (row_major (free_cells (pieces config_3x2) (rows config_3x2) (cols config_3x2)))
     = free_cells (pieces config_3x2) (rows config_3x2) (cols config_3x2)"
    "distinct (row_major (free_cells (pieces config_3x2) (rows config_3x2) (cols config_3x2)))"
    "card (free_cells (pieces config_3x2) (rows config_3x2) (cols config_3x2)) = 5"
    by code_simp+
  have h0: "map (\<lambda>p. (get_piece_dimensions p, height p, width p)) (pieces config_3x2)
     = [(Inr (1, 1), None, None)]" by code_simp
  note inst = generate_supernodes_combinations [where hyper_state = "pieces config_3x2"
        and set_order = row_major and cfg = config_3x2, OF h1 h(1) h(2)]
  show ?thesis
    by (rule conjI [OF h0 conjI [OF h(1) conjI [OF h(2) conjI [OF h(3) inst]]]])
qed

text \<open>
  Claim C3. On the 1 x 3 board with a horizontal domino and the unit target at (0, 2),
  \<open>generate_hypernodes\<close> returns two hyper-states; in the second the domino is placed on
  (0, 1) and (0, 2), on top of the target, which was left in place: the cell (0, 2)
  belongs to both pieces.
\<close>

theorem generate_hypernodes_overlap:
  "generate_hypernodes config_1x3 =
     Inr [[(mk_piece ''H'' ''1x2'' 0 0)\<lparr>height := Some 1, width := Some 2\<rparr>,
           (mk_piece ''T'' ''1x1'' 0 2)\<lparr>height := Some 1, width := Some 1\<rparr>],
          [(mk_piece ''H'' ''1x2'' 0 1)\<lparr>height := Some 1, width := Some 2\<rparr>,
           (mk_piece ''T'' ''1x1'' 0 2)\<lparr>height := Some 1, width := Some 1\<rparr>]] \<and>
   (0, 2) \<in> set (piece_cells ((mk_piece ''H'' ''1x2'' 0 1)\<lparr>height := Some 1, width := Some 2\<rparr>)) \<and>
   (0, 2) \<in> set (piece_cells ((mk_piece ''T'' ''1x1'' 0 2)\<lparr>height := Some 1, width := Some 1\<rparr>))"
  by code_simp

section \<open>Malformed configurations\<close>

text \<open>\<open>generate_hypernodes\<close> raises only on a piece of unknown type, and does not read the target.\<close>

lemma map_err_total:
  "(\<forall>x \<in> set xs. \<exists>y. f x = Inr y) \<Longrightarrow> \<exists>ys. map_err f xs = Inr ys"
proof (induction xs)
  case Nil
  show ?case by simp
next
  case (Cons x xs)
  then obtain y ys where "f x = Inr y" "map_err f xs = Inr ys" by auto
  thus ?case by simp
qed

lemma map_err_Inr:
  "map_err f xs = Inr ys \<Longrightarrow> \<forall>x \<in> set xs. \<exists>y. f x = Inr y"
  by (induction xs arbitrary: ys) (auto split: sum.splits)

lemma fold_err_total:
  "(\<And>x acc. x \<in> set xs \<Longrightarrow> \<exists>acc'. f x acc = Inr acc') \<Longrightarrow> \<exists>r. fold_err f xs acc = Inr r"
proof (induction xs arbitrary: acc)
  case Nil
  show ?case by simp
next
  case (Cons x xs)
  from Cons.prems [of x acc] obtain acc' where a: "f x acc = Inr acc'" by auto
  from Cons.IH [of acc'] Cons.prems obtain r where "fold_err f xs acc' = Inr r" by auto
  with a show ?case by simp
qed

lemma with_dimensions_total:
  "(\<exists>q. with_dimensions p = Inr q) = (\<exists>hw. get_piece_dimensions p = Inr hw)"
  by (auto simp: with_dimensions_def split: sum.splits)

lemma place_total:
  assumes "piece_type (fst pp) \<in> {''1x2'', ''2x1''}"
  shows "\<exists>q. place pp = Inr q"
proof -
  obtain p pl where pp: "pp = (p, pl)" by (cases pp)
  have "\<exists>hw. get_piece_dimensions (p\<lparr>row := fst (fst pl), col := snd (fst pl)\<rparr>) = Inr hw"
    using assms by (auto simp: pp get_piece_dimensions_def)
  thus ?thesis unfolding pp place_def by (simp add: with_dimensions_total)
qed

lemma hyper_step_total:
  assumes "\<forall>p \<in> set mov_1x2. piece_type p = ''1x2''" "\<forall>p \<in> set mov_2x1. piece_type p = ''2x1''"
  shows "\<exists>acc'. hyper_step mov_1x2 mov_2x1 fixd comb acc = Inr acc'"
proof -
  obtain comb_h comb_v where comb: "comb = (comb_h, comb_v)" by (cases comb)
  obtain hyper_states seen where acc: "acc = (hyper_states, seen)" by (cases acc)
  have "\<forall>pp \<in> set (zip mov_1x2 comb_h). \<exists>q. place pp = Inr q"
    using assms(1) by (auto intro!: place_total dest: set_zip_leftD)
  from map_err_total [OF this] obtain hs where hs: "map_err place (zip mov_1x2 comb_h) = Inr hs" ..
  have "\<forall>pp \<in> set (zip mov_2x1 comb_v). \<exists>q. place pp = Inr q"
    using assms(2) by (auto intro!: place_total dest: set_zip_leftD)
  from map_err_total [OF this] obtain vs where vs: "map_err place (zip mov_2x1 comb_v) = Inr vs" ..
  show ?thesis
    unfolding hyper_step_def comb acc by (simp add: hs vs Let_def)
qed

lemma generate_hypernodes_total:
  "(\<exists>hs. generate_hypernodes c = Inr hs) = (\<forall>p \<in> set (pieces c). \<exists>hw. get_piece_dimensions p = Inr hw)"
proof
  assume "\<exists>hs. generate_hypernodes c = Inr hs"
  then obtain fixd where
    f: "map_err with_dimensions (filter (\<lambda>p. piece_type p \<notin> {''1x2'', ''2x1''}) (pieces c)) = Inr fixd"
    by (auto simp: generate_hypernodes_def Let_def split: sum.splits)
  show "\<forall>p \<in> set (pieces c). \<exists>hw. get_piece_dimensions p = Inr hw"
  proof
    fix p assume p: "p \<in> set (pieces c)"
    show "\<exists>hw. get_piece_dimensions p = Inr hw"
    proof (cases "piece_type p \<in> {''1x2'', ''2x1''}")
      case True
      thus ?thesis by (auto simp: get_piece_dimensions_def)
    next
      case False
      with p have "p \<in> set (filter (\<lambda>p. piece_type p \<notin> {''1x2'', ''2x1''}) (pieces c))" by simp
      with map_err_Inr [OF f] have "\<exists>q. with_dimensions p = Inr q" by blast
      thus ?thesis by (simp add: with_dimensions_total)
    qed
  qed
next
  assume known: "\<forall>p \<in> set (pieces c). \<exists>hw. get_piece_dimensions p = Inr hw"
  let ?movable = "filter (\<lambda>p. piece_type p \<in> {''1x2'', ''2x1''}) (pieces c)"
  let ?m1 = "filter (\<lambda>p. piece_type p = ''1x2'') ?movable"
  let ?m2 = "filter (\<lambda>p. piece_type p = ''2x1'') ?movable"
  let ?combs = "concat (map (\<lambda>comb_h. map (\<lambda>comb_v. (comb_h, comb_v))
                              (combinations (placements_v (rows c) (cols c)) (length ?m2)))
                            (combinations (placements_h (rows c) (cols c)) (length ?m1)))"
  have "\<forall>p \<in> set (filter (\<lambda>p. piece_type p \<notin> {''1x2'', ''2x1''}) (pieces c)).
      \<exists>q. with_dimensions p = Inr q"
    using known by (simp add: with_dimensions_total)
  from map_err_total [OF this] obtain fixd where
    f: "map_err with_dimensions (filter (\<lambda>p. piece_type p \<notin> {''1x2'', ''2x1''}) (pieces c)) = Inr fixd" ..
  have "\<exists>r. fold_err (hyper_step ?m1 ?m2 fixd) ?combs ([], {}) = Inr r"
    by (rule fold_err_total) (rule hyper_step_total, simp_all)
  then obtain r where r: "fold_err (hyper_step ?m1 ?m2 fixd) ?combs ([], {}) = Inr r" ..
  obtain hyper_states seen where "r = (hyper_states, seen)" by (cases r)
  with r f show "\<exists>hs. generate_hypernodes c = Inr hs"
    by (simp add: generate_hypernodes_def Let_def)
qed

lemma generate_hypernodes_frame:
  fixes c :: "'a puzzle_config_scheme" and c' :: "'b puzzle_config_scheme"
  shows "rows c = rows c' \<Longrightarrow> cols c = cols c' \<Longrightarrow> pieces c = pieces c' \<Longrightarrow>
     generate_hypernodes c = generate_hypernodes c'"
  by (simp add: generate_hypernodes_def Let_def cong: sum.case_cong)

text \<open>
  Claim C9, as stated, fails: the configuration with no rows, a duplicated label, pieces
  outside the grid and an unknown target is loaded, and the enumeration of hyper-nodes
  runs on it and returns a hyper-state.
\<close>

theorem malformed_config_enumerated:
  "main_hypernodes (Some (Json_object bad_object)) =
     Some (Inr [[(mk_piece ''A'' ''1x1'' 5 5)\<lparr>height := Some 1, width := Some 1\<rparr>,
                 (mk_piece ''A'' ''1x1'' 7 7)\<lparr>height := Some 1, width := Some 1\<rparr>]])"
  by code_simp

text \<open>
  Claim C9, amended. None of the four defects is looked for. \<open>main\<close> gives up before the
  enumeration exactly when the file is missing, or holds a list, or the value loaded is
  false in Python's sense (\<open>null\<close>, the empty object, zero, the empty string). A
  dictionary that lacks one of the keys \<open>rows\<close>, \<open>cols\<close>, \<open>pieces\<close> ends the enumeration
  with a \<open>KeyError\<close>. A dictionary holding the three keys is handed to
  \<open>generate_hypernodes\<close> as it is, whatever its dimensions, labels, anchors and target
  are, and the enumeration returns a list of hyper-states for it exactly when the type of
  every piece is one of the three known ones.
\<close>

theorem config_not_validated:
  "((main_hypernodes contents = None) =
      (contents = None \<or> (\<exists>xs. contents = Some (Json_array xs)) \<or> (\<exists>v. contents = Some v \<and> \<not> truthy v))) \<and>
   (truthy (Json_object dk) \<and>
    (rows_key dk = None \<or> cols_key dk = None \<or> pieces_key dk = None) \<longrightarrow>
      main_hypernodes (Some (Json_object dk)) = Some (Inl KeyError)) \<and>
   (rows_key d = Some r \<and> cols_key d = Some c \<and> pieces_key d = Some ps \<longrightarrow>
      main_hypernodes (Some (Json_object d))
        = Some (generate_hypernodes \<lparr>rows = r, cols = c, pieces = ps, target = t\<rparr>) \<and>
      ((\<exists>hs. main_hypernodes (Some (Json_object d)) = Some (Inr hs)) =
         (\<forall>p \<in> set ps. \<exists>hw. get_piece_dimensions p = Inr hw)))"
proof (intro conjI impI)
  show "(main_hypernodes contents = None) =
      (contents = None \<or> (\<exists>xs. contents = Some (Json_array xs)) \<or> (\<exists>v. contents = Some v \<and> \<not> truthy v))"
  proof (cases contents)
    case None
    thus ?thesis by (simp add: main_hypernodes_def load_puzzle_config_def)
  next
    case (Some v)
    thus ?thesis
      by (cases v) (simp_all add: main_hypernodes_def load_puzzle_config_def truthy_def)
  qed
next
  assume a: "truthy (Json_object dk) \<and>
    (rows_key dk = None \<or> cols_key dk = None \<or> pieces_key dk = None)"
  hence "read_config (Json_object dk) = Inl KeyError"
    by (auto simp: read_config_def split: option.splits)
  with a show "main_hypernodes (Some (Json_object dk)) = Some (Inl KeyError)"
    by (simp add: main_hypernodes_def load_puzzle_config_def)
next
  assume a: "rows_key d = Some r \<and> cols_key d = Some c \<and> pieces_key d = Some ps"
  let ?cfg = "\<lparr>rows = r, cols = c, pieces = ps,
      target = (case target_key d of None \<Rightarrow> [] | Some t \<Rightarrow> t)\<rparr>"
  from a have rc: "read_config (Json_object d) = Inr ?cfg"
    by (simp add: read_config_def)
  from a have tr: "truthy (Json_object d)" by (simp add: truthy_def)
  have m: "main_hypernodes (Some (Json_object d)) = Some (generate_hypernodes ?cfg)"
    using rc tr by (simp add: main_hypernodes_def load_puzzle_config_def)
  have fr: "generate_hypernodes ?cfg
      = generate_hypernodes \<lparr>rows = r, cols = c, pieces = ps, target = t\<rparr>"
    by (rule generate_hypernodes_frame) simp_all
  show "main_hypernodes (Some (Json_object d))
        = Some (generate_hypernodes \<lparr>rows = r, cols = c, pieces = ps, target = t\<rparr>)"
    using m fr by simp
  show "(\<exists>hs. main_hypernodes (Some (Json_object d)) = Some (Inr hs)) =
         (\<forall>p \<in> set ps. \<exists>hw. get_piece_dimensions p = Inr hw)"
    unfolding m using generate_hypernodes_total [of ?cfg] by simp
qed

theorem config_not_validated_witness:
  "\<not> truthy (Json_object empty_object) \<and>
   main_hypernodes (Some (Json_object empty_object)) = None \<and>
   truthy (Json_object pieces_object) \<and> rows_key pieces_object = None \<and>
   main_hypernodes (Some (Json_object pieces_object)) = Some (Inl KeyError) \<and>
   rows_key bad_object = Some 0 \<and> cols_key bad_object = Some (- 1) \<and>
   pieces_key bad_object = Some [mk_piece ''A'' ''1x1'' 5 5, mk_piece ''A'' ''1x1'' 7 7] \<and>
   main_hypernodes (Some (Json_object bad_object))
     = Some (generate_hypernodes
         \<lparr>rows = 0, cols = - 1,
          pieces = [mk_piece ''A'' ''1x1'' 5 5, mk_piece ''A'' ''1x1'' 7 7], target = ''Z''\<rparr>) \<and>
   map get_piece_dimensions [mk_piece ''A'' ''1x1'' 5 5, mk_piece ''A'' ''1x1'' 7 7]
     = [Inr (1, 1), Inr (1, 1)] \<and>
   (\<exists>hs. main_hypernodes (Some (Json_object bad_object)) = Some (Inr hs))"
proof -
  note inst = config_not_validated [where contents = "Some (Json_object empty_object)"
      and dk = pieces_object and d = bad_object and r = 0 and c = "- 1"
      and ps = "[mk_piece ''A'' ''1x1'' 5 5, mk_piece ''A'' ''1x1'' 7 7]" and t = "''Z''"]
  note k1 = inst [THEN conjunct1]
  note k2 = inst [THEN conjunct2, THEN conjunct1, rule_format]
  note k3 = inst [THEN conjunct2, THEN conjunct2, rule_format]
  have h1: "\<not> truthy (Json_object empty_object)" by code_simp
  hence "\<exists>v. Some (Json_object empty_object) = Some v \<and> \<not> truthy v" by blast
  with k1 have g1: "main_hypernodes (Some (Json_object empty_object)) = None" by blast
  have h2: "truthy (Json_object pieces_object)" "rows_key pieces_object = None" by code_simp+
  from h2 have "truthy (Json_object pieces_object) \<and>
    (rows_key pieces_object = None \<or> cols_key pieces_object = None \<or> pieces_key pieces_object = None)"
    by blast
  note g2 = k2 [OF this]
  have h3: "rows_key bad_object = Some 0" "cols_key bad_object = Some (- 1)"
    "pieces_key bad_object = Some [mk_piece ''A'' ''1x1'' 5 5, mk_piece ''A'' ''1x1'' 7 7]"
    by (simp_all add: bad_object_def)
  note g3 = k3 [OF conjI [OF h3(1) conjI [OF h3(2) h3(3)]]]
  have h4: "\<forall>p \<in> set [mk_piece ''A'' ''1x1'' 5 5, mk_piece ''A'' ''1x1'' 7 7].
       \<exists>hw. get_piece_dimensions p = Inr hw"
    by (simp add: mk_piece_def get_piece_dimensions_def)
  have h4m: "map get_piece_dimensions [mk_piece ''A'' ''1x1'' 5 5, mk_piece ''A'' ''1x1'' 7 7]
     = [Inr (1, 1), Inr (1, 1)]" by code_simp
  from g3 [THEN conjunct2] h4
  have g4: "\<exists>hs. main_hypernodes (Some (Json_object bad_object)) = Some (Inr hs)" by blast
  show ?thesis
    by (intro conjI) (rule h1 g1 h2 g2 h3 g3 [THEN conjunct1] h4m g4)+
qed

section \<open>Breadth-first search\<close>

text \<open>A rule for the loop: an invariant of queue and visited set carries over to the result.\<close>

lemma bfs_loop_rule:
  fixes visit :: "'s \<Rightarrow> ('s, 'm) visit" and key :: "'s \<Rightarrow> 'k"
  assumes run: "bfs_loop visit key queue visited = Some r"
    and inv: "I queue visited"
    and skip: "\<And>cur hist rest vis. I ((cur, hist) # rest) vis \<Longrightarrow> visit cur = Skip \<Longrightarrow> I rest vis"
    and expand: "\<And>cur hist rest vis succs q' v'.
        I ((cur, hist) # rest) vis \<Longrightarrow> visit cur = Expand succs \<Longrightarrow>
        enqueue_all key hist succs (rest, vis) = (q', v') \<Longrightarrow> I q' v'"
    and empty: "\<And>vis. I [] vis \<Longrightarrow> Q Exhausted"
    and goal: "\<And>cur hist rest vis. I ((cur, hist) # rest) vis \<Longrightarrow> visit cur = Goal \<Longrightarrow> Q (Found (cur, hist))"
    and raise: "\<And>cur hist rest vis e. I ((cur, hist) # rest) vis \<Longrightarrow> visit cur = Raise e \<Longrightarrow> Q (Raised e)"
  shows "Q r"
proof -
  have "visit = visit \<longrightarrow> key = key \<longrightarrow> I queue visited \<longrightarrow> Q r"
  proof (rule bfs_loop.raw_induct
      [where P = "\<lambda>vs ky qu vi res. vs = visit \<longrightarrow> ky = key \<longrightarrow> I qu vi \<longrightarrow> Q res", OF _ run])
    fix loop :: "('s \<Rightarrow> ('s, 'm) visit) \<Rightarrow> ('s \<Rightarrow> 'k) \<Rightarrow> ('s \<times> 'm list) list \<Rightarrow> 'k set
      \<Rightarrow> ('s \<times> 'm list) bfs_result option"
    fix vs ky qu vi res
    assume IH: "\<And>vs ky qu vi res. loop vs ky qu vi = Some res \<Longrightarrow>
                  vs = visit \<longrightarrow> ky = key \<longrightarrow> I qu vi \<longrightarrow> Q res"
      and body: "(case qu of
          [] \<Rightarrow> Some Exhausted
        | (cur, hist) # rest \<Rightarrow>
            (case vs cur of
               Raise e \<Rightarrow> Some (Raised e)
             | Skip \<Rightarrow> loop vs ky rest vi
             | Goal \<Rightarrow> Some (Found (cur, hist))
             | Expand succs \<Rightarrow>
                 (case enqueue_all ky hist succs (rest, vi) of
                    (queue', visited') \<Rightarrow> loop vs ky queue' visited'))) = Some res"
    show "vs = visit \<longrightarrow> ky = key \<longrightarrow> I qu vi \<longrightarrow> Q res"
    proof (intro impI)
      assume vs: "vs = visit" and ky: "ky = key" and i: "I qu vi"
      show "Q res"
      proof (cases qu)
        case Nil
        with body have "res = Exhausted" by simp
        with i Nil empty show ?thesis by blast
      next
        case (Cons a rest)
        obtain cur hist where a: "a = (cur, hist)" by (cases a)
        note i' = i [unfolded Cons a]
        show ?thesis
        proof (cases "visit cur")
          case (Raise e)
          with body Cons a vs have "res = Raised e" by simp
          with raise [OF i' Raise] show ?thesis by simp
        next
          case Skip
          with body Cons a vs have "loop vs ky rest vi = Some res" by simp
          from IH [OF this] vs ky skip [OF i' Skip] show ?thesis by blast
        next
          case Goal
          with body Cons a vs have "res = Found (cur, hist)" by simp
          with goal [OF i' Goal] show ?thesis by simp
        next
          case (Expand succs)
          obtain q' v' where e: "enqueue_all key hist succs (rest, vi) = (q', v')"
            by (cases "enqueue_all key hist succs (rest, vi)")
          with body Cons a vs ky Expand have "loop vs ky q' v' = Some res" by simp
          from IH [OF this] vs ky expand [OF i' Expand e] show ?thesis by blast
        qed
      qed
    qed
  qed
  with inv show ?thesis by simp
qed

lemma bfs_loop_Found:
  assumes "bfs_loop visit key queue visited = Some (Found (s, h))"
  shows "visit s = Goal"
proof -
  have "\<forall>s' h'. Found (s, h) = Found (s', h') \<longrightarrow> visit s' = Goal"
    by (rule bfs_loop_rule [where I = "\<lambda>_ _. True"
          and Q = "\<lambda>r. \<forall>s' h'. r = Found (s', h') \<longrightarrow> visit s' = Goal", OF assms]) simp_all
  thus ?thesis by simp
qed

lemma bfs_loop_Goal:
  "visit cur = Goal \<Longrightarrow> bfs_loop visit key ((cur, hist) # rest) visited = Some (Found (cur, hist))"
  by (subst bfs_loop.simps) simp








subsection \<open>Termination of the validated search\<close>

lemma enqueue_all_measure:
  assumes "finite U" "\<forall>ms \<in> set succs. key (snd ms) \<in> U"
    and "enqueue_all key hist succs (q, v) = (q', v')"
  shows "length q' + card (U - v') = length q + card (U - v) \<and>
         fst ` set q' \<subseteq> fst ` set q \<union> snd ` set succs"
  using assms(2,3)
proof (induction succs arbitrary: q v)
  case Nil
  then show ?case by simp
next
  case (Cons a succs)
  obtain m s' where a: "a = (m, s')" by (cases a)
  show ?case
  proof (cases "key s' \<in> v")
    case True
    with Cons.prems a have "enqueue_all key hist succs (q, v) = (q', v')" by simp
    from Cons.IH [OF _ this] Cons.prems(1) show ?thesis by auto
  next
    case False
    with Cons.prems a have
      e: "enqueue_all key hist succs (q @ [(s', hist @ [m])], insert (key s') v) = (q', v')"
      by simp
    from Cons.prems(1) a have k: "key s' \<in> U" by simp
    have "U - v = insert (key s') (U - insert (key s') v)"
      using k False by auto
    moreover have "key s' \<notin> U - insert (key s') v" by simp
    moreover have "finite (U - insert (key s') v)" using assms(1) by simp
    ultimately have c: "card (U - v) = Suc (card (U - insert (key s') v))"
      by (metis card_insert_disjoint)
    from Cons.IH [OF _ e] Cons.prems(1) c a show ?thesis by auto
  qed
qed

lemma bfs_loop_terminates:
  fixes visit :: "'s \<Rightarrow> ('s, 'm) visit" and key :: "'s \<Rightarrow> 'k"
  assumes fin: "finite U"
    and closed: "\<And>s succs m s'. s \<in> R \<Longrightarrow> visit s = Expand succs \<Longrightarrow> (m, s') \<in> set succs
                   \<Longrightarrow> s' \<in> R \<and> key s' \<in> U"
    and q: "fst ` set queue \<subseteq> R"
  shows "\<exists>r. bfs_loop visit key queue visited = Some r"
  using q
proof (induction "length queue + card (U - visited)" arbitrary: queue visited rule: less_induct)
  case less
  show ?case
  proof (cases queue)
    case Nil
    thus ?thesis by (subst bfs_loop.simps) simp
  next
    case (Cons a rest)
    obtain cur hist where a: "a = (cur, hist)" by (cases a)
    from less.prems Cons a have cur: "cur \<in> R" and rest: "fst ` set rest \<subseteq> R" by auto
    show ?thesis
    proof (cases "visit cur")
      case (Raise e)
      thus ?thesis unfolding Cons a by (subst bfs_loop.simps) simp
    next
      case Skip
      have "\<exists>r. bfs_loop visit key rest visited = Some r"
        by (rule less.hyps) (simp_all add: Cons rest)
      thus ?thesis unfolding Cons a by (subst bfs_loop.simps) (simp add: Skip)
    next
      case Goal
      thus ?thesis unfolding Cons a by (subst bfs_loop.simps) simp
    next
      case (Expand succs)
      obtain q' v' where e: "enqueue_all key hist succs (rest, visited) = (q', v')"
        by (cases "enqueue_all key hist succs (rest, visited)")
      have cl: "\<forall>ms \<in> set succs. snd ms \<in> R \<and> key (snd ms) \<in> U"
        using closed [OF cur Expand] by auto
      hence "\<forall>ms \<in> set succs. key (snd ms) \<in> U" by blast
      from enqueue_all_measure [OF fin this e]
      have m: "length q' + card (U - v') = length rest + card (U - visited)"
        and s: "fst ` set q' \<subseteq> fst ` set rest \<union> snd ` set succs" by simp_all
      have "snd ` set succs \<subseteq> R" using cl by blast
      with s rest have "fst ` set q' \<subseteq> R" by blast
      moreover have "length q' + card (U - v') < length queue + card (U - visited)"
        using m Cons by simp
      ultimately have "\<exists>r. bfs_loop visit key q' v' = Some r"
        using less.hyps by blast
      thus ?thesis unfolding Cons a by (subst bfs_loop.simps) (simp add: Expand e)
    qed
  qed
qed

lemma valid_moves_entry:
  "valid_moves q board rws cls ms0 = Inr ms \<Longrightarrow> (d, r, c) \<in> set ms \<Longrightarrow>
     is_valid_move q r c board rws cls = Inr True"
proof (induction ms0 arbitrary: ms)
  case Nil
  then show ?case by simp
next
  case (Cons m ms0)
  obtain d' dr dc where m: "m = (d', dr, dc)" by (cases m)
  from Cons.prems(1) obtain ok rest where
    v: "is_valid_move q (row q + dr) (col q + dc) board rws cls = Inr ok"
    and r: "valid_moves q board rws cls ms0 = Inr rest"
    and ms: "ms = (if ok then (d', row q + dr, col q + dc) # rest else rest)"
    unfolding m by (auto split: sum.splits)
  show ?case
  proof (cases "(d, r, c) \<in> set rest")
    case True
    from Cons.IH [OF r True] show ?thesis .
  next
    case False
    with Cons.prems(2) ms have "ok" "r = row q + dr" "c = col q + dc"
      by (auto split: if_splits)
    with v show ?thesis by simp
  qed
qed

lemma is_valid_move_in_grid:
  assumes "is_valid_move q r c board rws cls = Inr True"
    and "height q = Some h" "width q = Some w" "0 < h" "0 < w"
  shows "(r, c) \<in> grid rws cls"
  using assms by (auto simp: is_valid_move_def grid_def split: if_splits)

lemma build_move_dict_entry:
  "build_move_dict board rws cls ps md = Inr md' \<Longrightarrow> md' l = Some ms \<Longrightarrow>
     md l = Some ms \<or> (\<exists>q \<in> set ps. valid_moves q board rws cls MOVES = Inr ms)"
proof (induction ps arbitrary: md)
  case Nil
  then show ?case by simp
next
  case (Cons a ps)
  from Cons.prems(1) obtain ms' where
    v: "valid_moves a board rws cls MOVES = Inr ms'"
    and r: "build_move_dict board rws cls ps (md(label a \<mapsto> ms')) = Inr md'"
    by (auto split: sum.splits)
  from Cons.IH [OF r Cons.prems(2)] v show ?case
    by (auto split: if_splits)
qed

lemma successors_entry:
  "successors apply_move md ps = Inr succs \<Longrightarrow> (m, s') \<in> set succs \<Longrightarrow>
     \<exists>p \<in> set ps. \<exists>ms d r c. md (label p) = Some ms \<and> (d, r, c) \<in> set ms \<and>
        m = (label p, d) \<and> s' = apply_move (label p) r c"
proof (induction ps arbitrary: succs)
  case Nil
  then show ?case by simp
next
  case (Cons a ps)
  from Cons.prems(1) obtain ms rest where
    l: "md (label a) = Some ms"
    and r: "successors apply_move md ps = Inr rest"
    and s: "succs = map (\<lambda>(d, r, c). ((label a, d), apply_move (label a) r c)) ms @ rest"
    by (auto split: option.splits sum.splits)
  show ?case
  proof (cases "(m, s') \<in> set rest")
    case True
    from Cons.IH [OF r True] show ?thesis by auto
  next
    case False
    with Cons.prems(2) s obtain d r c where "(d, r, c) \<in> set ms" "m = (label a, d)"
      "s' = apply_move (label a) r c" by auto
    with l show ?thesis by auto
  qed
qed

lemma move_piece_labels: "map label (move_piece ps l r c) = map label ps"
  by (simp add: move_piece_def)

lemma move_piece_anchors:
  "anchor ` set (move_piece ps l r c) \<subseteq> insert (r, c) (anchor ` set ps)"
  by (auto simp: move_piece_def anchor_def)

text \<open>Every anchor a validating generator offers lies in the grid.\<close>

lemma get_all_possible_moves_valid_in_grid:
  assumes gen: "get_all_possible_moves_valid dims ps rws cls = Inr (md, ps')"
    and pos: "\<And>q h w. dims q = Inr (h, w) \<Longrightarrow> 0 < h \<and> 0 < w"
    and md: "md l = Some ms" and m: "(d, r, c) \<in> set ms"
  shows "(r, c) \<in> grid rws cls"
    and "map label ps' = map label ps" and "map anchor ps' = map anchor ps"
proof -
  from gen obtain board where
    cbr: "create_board_representation dims ps Map.empty = Inr (board, ps')"
    and bmd: "build_move_dict board rws cls ps' Map.empty = Inr md"
    by (auto simp: get_all_possible_moves_valid_def split: sum.splits)
  note res = create_board_representation_result [OF cbr]
  show "map label ps' = map label ps" "map anchor ps' = map anchor ps"
    unfolding res(1) by (simp_all add: anchor_def)
  from build_move_dict_entry [OF bmd md] obtain q' where
    q': "q' \<in> set ps'" and v: "valid_moves q' board rws cls MOVES = Inr ms" by auto
  from q' res(1) obtain q where q: "q \<in> set ps"
    and q'q: "q' = q\<lparr>height := Some (fst (projr (dims q))), width := Some (snd (projr (dims q)))\<rparr>"
    by auto
  from res(2) q obtain h w where d: "dims q = Inr (h, w)" by fastforce
  from pos [OF d] have hw: "0 < h" "0 < w" by simp_all
  have "height q' = Some h" "width q' = Some w" using q'q d by simp_all
  from is_valid_move_in_grid [OF valid_moves_entry [OF v m] this hw]
  show "(r, c) \<in> grid rws cls" .
qed

lemma finite_grid: "finite (grid rws cls)"
  by (simp add: grid_def)

lemma visit_simple_Expand:
  assumes "visit_simple rws cls tgt cur = Expand succs"
  shows "\<exists>md cur'. get_all_possible_moves_valid get_piece_dimensions_simple cur rws cls = Inr (md, cur') \<and>
           successors (move_piece cur') md cur' = Inr succs"
  using assms
  by (auto simp: visit_simple_def split: option.splits sum.splits prod.splits if_splits)

text \<open>
  The search of simpleShortestMoves.py returns on every configuration: all anchors it
  produces lie in the grid, so the keys it can add to the visited set are finitely many.
\<close>

lemma find_shortest_target_path_terminates:
  "\<exists>r. find_shortest_target_path puzzle_data = Some r"
proof -
  let ?init = "pieces puzzle_data"
  let ?rws = "rows puzzle_data" and ?cls = "cols puzzle_data"
  let ?visit = "visit_simple ?rws ?cls (target puzzle_data)"
  define P where "P = anchor ` set ?init \<union> grid ?rws ?cls"
  define R where "R = {ps. map label ps = map label ?init \<and> anchor ` set ps \<subseteq> P}"
  define U where "U = sort ` {xs. set xs \<subseteq> label ` set ?init \<times> P \<and> length xs = length ?init}"
  have "finite P" by (simp add: P_def finite_grid)
  hence "finite (label ` set ?init \<times> P)" by simp
  hence fin: "finite U"
    unfolding U_def by (intro finite_imageI finite_lists_length_eq)
  have key: "board_to_tuple ps \<in> U" if "ps \<in> R" for ps
  proof -
    from that have l: "map label ps = map label ?init" and a: "anchor ` set ps \<subseteq> P"
      by (simp_all add: R_def)
    have "length ps = length ?init" using l by (metis length_map)
    moreover have "set (map (\<lambda>p. (label p, row p, col p)) ps) \<subseteq> label ` set ?init \<times> P"
    proof
      fix x assume "x \<in> set (map (\<lambda>p. (label p, row p, col p)) ps)"
      then obtain p where p: "p \<in> set ps" and x: "x = (label p, anchor p)"
        by (auto simp: anchor_def)
      have "label p \<in> set (map label ps)" using p by simp
      hence "label p \<in> label ` set ?init" unfolding l by simp
      moreover have "anchor p \<in> P" using a p by blast
      ultimately show "x \<in> label ` set ?init \<times> P" using x by simp
    qed
    ultimately show ?thesis
      unfolding U_def board_to_tuple_def by (intro imageI) simp
  qed
  have closed: "s' \<in> R \<and> board_to_tuple s' \<in> U"
    if s: "s \<in> R" and v: "?visit s = Expand succs" and m: "(m, s') \<in> set succs" for s succs m s'
  proof -
    from visit_simple_Expand [OF v] obtain md cur' where
      gen: "get_all_possible_moves_valid get_piece_dimensions_simple s ?rws ?cls = Inr (md, cur')"
      and suc: "successors (move_piece cur') md cur' = Inr succs" by blast
    from successors_entry [OF suc m] obtain p ms d r c where
      "p \<in> set cur'" and md: "md (label p) = Some ms" and e: "(d, r, c) \<in> set ms"
      and s': "s' = move_piece cur' (label p) r c" by auto
    note g = get_all_possible_moves_valid_in_grid
      [OF gen get_piece_dimensions_pos(2) md e]
    have "set (map anchor cur') = set (map anchor s)" by (simp only: g(3))
    hence "anchor ` set cur' = anchor ` set s" by (simp only: set_map)
    hence "anchor ` set cur' \<subseteq> P" using s by (simp add: R_def)
    moreover have "(r, c) \<in> P" using g(1) by (simp add: P_def)
    ultimately have "insert (r, c) (anchor ` set cur') \<subseteq> P" by simp
    from subset_trans [OF move_piece_anchors this]
    have a': "anchor ` set s' \<subseteq> P" unfolding s' .
    have "map label s = map label ?init" using s by (simp add: R_def)
    with g(2) have l': "map label s' = map label ?init"
      by (simp add: s' move_piece_labels)
    from a' l' have "s' \<in> R" by (simp add: R_def)
    with key show ?thesis by blast
  qed
  have "\<exists>r. bfs_loop ?visit board_to_tuple [(?init, [])] {board_to_tuple ?init} = Some r"
  proof (rule bfs_loop_terminates [where U = U and R = R])
    show "finite U" by (rule fin)
    show "fst ` set [(?init, [])] \<subseteq> R" by (simp add: R_def P_def)
    fix s succs m s'
    assume "s \<in> R" "?visit s = Expand succs" "(m, s') \<in> set succs"
    thus "s' \<in> R \<and> board_to_tuple s' \<in> U" by (rule closed)
  qed
  then obtain r where
    r: "bfs_loop ?visit board_to_tuple [(?init, [])] {board_to_tuple ?init} = Some r" ..
  show ?thesis
    unfolding find_shortest_target_path_def r by (cases r) auto
qed

subsection \<open>The loop returns a shortest path\<close>

lemma enqueue_all_result:
  assumes "enqueue_all key hist succs (q, v) = (q', v')"
  shows "\<exists>new. q' = q @ new \<and> v' = v \<union> key ` fst ` set new \<and>
     (\<forall>e \<in> set new. \<exists>m s'. e = (s', hist @ [m]) \<and> (m, s') \<in> set succs \<and> key s' \<notin> v) \<and>
     (\<forall>ms \<in> set succs. key (snd ms) \<in> v')"
  using assms
proof (induction succs arbitrary: q v)
  case Nil
  then show ?case by simp
next
  case (Cons a succs)
  obtain m s' where a: "a = (m, s')" by (cases a)
  show ?case
  proof (cases "key s' \<in> v")
    case True
    with Cons.prems a have "enqueue_all key hist succs (q, v) = (q', v')" by simp
    from Cons.IH [OF this] obtain new where
      n: "q' = q @ new" "v' = v \<union> key ` fst ` set new"
      "\<forall>e \<in> set new. \<exists>m s'. e = (s', hist @ [m]) \<and> (m, s') \<in> set succs \<and> key s' \<notin> v"
      "\<forall>ms \<in> set succs. key (snd ms) \<in> v'" by blast
    have "\<forall>e \<in> set new. \<exists>m s'. e = (s', hist @ [m]) \<and> (m, s') \<in> set (a # succs) \<and> key s' \<notin> v"
      using n(3) by fastforce
    moreover have "\<forall>ms \<in> set (a # succs). key (snd ms) \<in> v'"
      using n(2,4) True a by simp
    ultimately show ?thesis using n(1,2) by blast
  next
    case False
    let ?e = "(s', hist @ [m])"
    from False Cons.prems a have
      "enqueue_all key hist succs (q @ [?e], insert (key s') v) = (q', v')" by simp
    from Cons.IH [OF this] obtain new where
      n: "q' = (q @ [?e]) @ new" "v' = insert (key s') v \<union> key ` fst ` set new"
      "\<forall>e \<in> set new. \<exists>m s'a. e = (s'a, hist @ [m]) \<and> (m, s'a) \<in> set succs \<and> key s'a \<notin> insert (key s') v"
      "\<forall>ms \<in> set succs. key (snd ms) \<in> v'" by blast
    have 1: "q' = q @ (?e # new)" using n(1) by simp
    have 2: "v' = v \<union> key ` fst ` set (?e # new)" using n(2) by auto
    have 3: "\<forall>e \<in> set (?e # new). \<exists>m s'. e = (s', hist @ [m]) \<and> (m, s') \<in> set (a # succs) \<and> key s' \<notin> v"
    proof
      fix e assume "e \<in> set (?e # new)"
      then consider "e = ?e" | "e \<in> set new" by auto
      thus "\<exists>m s'. e = (s', hist @ [m]) \<and> (m, s') \<in> set (a # succs) \<and> key s' \<notin> v"
      proof cases
        case 1
        with a False show ?thesis by auto
      next
        case 2
        with n(3) obtain m2 s2 where "e = (s2, hist @ [m2])" "(m2, s2) \<in> set succs"
          "key s2 \<notin> insert (key s') v" by blast
        thus ?thesis by auto
      qed
    qed
    have 4: "\<forall>ms \<in> set (a # succs). key (snd ms) \<in> v'"
      using n(2,4) a by simp
    from 1 2 3 4 show ?thesis by blast
  qed
qed

lemma bfs_inv_covered:
  assumes cong: "\<And>s t h h'. bfs_path visit init h s \<Longrightarrow> bfs_path visit init h' t
                  \<Longrightarrow> key s = key t \<Longrightarrow> visit s = visit t"
    and inv: "bfs_inv visit key init queue visited"
    and path: "bfs_path visit init h t"
    and short: "\<forall>e \<in> set queue. length h \<le> length (snd e)"
  shows "key t \<in> visited"
  using path short
proof (induction rule: bfs_path.induct)
  case start
  from inv show ?case by (simp add: bfs_inv_def)
next
  case (step h t succs m t')
  have less: "\<forall>e \<in> set queue. length h < length (snd e)"
    using step.prems by auto
  hence "key t \<in> visited" using step.IH by (simp add: less_imp_le)
  from inv obtain D where
    v: "visited = key ` (D \<union> fst ` set queue)"
    and D: "\<forall>s \<in> D. (\<exists>h. bfs_path visit init h s) \<and> visit s \<noteq> Goal \<and>
               (\<forall>succs ms. visit s = Expand succs \<longrightarrow> ms \<in> set succs \<longrightarrow> key (snd ms) \<in> visited)"
    unfolding bfs_inv_def by blast
  from \<open>key t \<in> visited\<close> v have "key t \<in> key ` (D \<union> fst ` set queue)" by simp
  then obtain x where x: "x \<in> D \<union> fst ` set queue" "key x = key t"
    by (metis imageE)
  have "x \<in> D"
  proof (rule ccontr)
    assume "x \<notin> D"
    with x(1) obtain e where e: "e \<in> set queue" "fst e = x" by auto
    with inv have
      mn: "\<forall>h' t. bfs_path visit init h' t \<longrightarrow> key t = key x \<longrightarrow> length (snd e) \<le> length h'"
      unfolding bfs_inv_def by auto
    with step.hyps(1) x(2) have "length (snd e) \<le> length h" by simp
    with less e(1) show False by fastforce
  qed
  with D obtain hx where "bfs_path visit init hx x" by blast
  from cong [OF this step.hyps(1) x(2)] step.hyps(2) have "visit x = Expand succs" by simp
  with \<open>x \<in> D\<close> D step.hyps(3) have "key (snd (m, t')) \<in> visited" by blast
  thus ?case by simp
qed

lemma bfs_inv_init: "bfs_inv visit key init [(init, [])] {key init}"
proof -
  have "bfs_path visit init [] init" by (rule bfs_path.start)
  moreover have "\<exists>D. {key init} = key ` (D \<union> fst ` set [(init, [])]) \<and>
           (\<forall>s \<in> D. (\<exists>h. bfs_path visit init h s) \<and> visit s \<noteq> Goal \<and>
               (\<forall>succs ms. visit s = Expand succs \<longrightarrow> ms \<in> set succs
                   \<longrightarrow> key (snd ms) \<in> {key init}))"
    by (rule exI [of _ "{}"]) simp
  ultimately show ?thesis unfolding bfs_inv_def by simp
qed

lemma sorted_map_const: "\<forall>x \<in> set xs. f x = (c::nat) \<Longrightarrow> sorted (map f xs)"
  by (induction xs) auto

lemma bfs_inv_head:
  assumes "bfs_inv visit key init ((cur, hist) # rest) visited"
  shows "bfs_path visit init hist cur"
    and "\<And>h' t. bfs_path visit init h' t \<Longrightarrow> key t = key cur \<Longrightarrow> length hist \<le> length h'"
    and "\<forall>e \<in> set rest. bfs_path visit init (snd e) (fst e) \<and>
          (\<forall>h' t. bfs_path visit init h' t \<longrightarrow> key t = key (fst e)
              \<longrightarrow> length (snd e) \<le> length h')"
    and "\<forall>e \<in> set rest. length hist \<le> length (snd e) \<and> length (snd e) \<le> Suc (length hist)"
    and "sorted (map (\<lambda>e. length (snd e)) rest)"
    and "\<forall>e \<in> set rest. \<forall>e' \<in> set rest. length (snd e) \<le> Suc (length (snd e'))"
    and "key init \<in> visited"
proof -
  let ?q = "(cur, hist) # rest"
  from assms have
    a: "\<forall>e \<in> set ?q. bfs_path visit init (snd e) (fst e) \<and>
          (\<forall>h' t. bfs_path visit init h' t \<longrightarrow> key t = key (fst e)
              \<longrightarrow> length (snd e) \<le> length h')"
    and b: "\<forall>e \<in> set ?q. \<forall>e' \<in> set ?q. length (snd e) \<le> Suc (length (snd e'))"
    and c: "sorted (map (\<lambda>e. length (snd e)) ?q)"
    and d: "key init \<in> visited"
    unfolding bfs_inv_def by blast+
  from a show "bfs_path visit init hist cur" by simp
  from a show "\<And>h' t. bfs_path visit init h' t \<Longrightarrow> key t = key cur \<Longrightarrow> length hist \<le> length h'"
    by simp
  from a show "\<forall>e \<in> set rest. bfs_path visit init (snd e) (fst e) \<and>
          (\<forall>h' t. bfs_path visit init h' t \<longrightarrow> key t = key (fst e)
              \<longrightarrow> length (snd e) \<le> length h')" by simp
  from c have "\<forall>e \<in> set rest. length hist \<le> length (snd e)" by simp
  moreover from b have "\<forall>e \<in> set rest. length (snd e) \<le> Suc (length hist)" by simp
  ultimately show "\<forall>e \<in> set rest. length hist \<le> length (snd e) \<and> length (snd e) \<le> Suc (length hist)"
    by blast
  from c show "sorted (map (\<lambda>e. length (snd e)) rest)" by simp
  from b show "\<forall>e \<in> set rest. \<forall>e' \<in> set rest. length (snd e) \<le> Suc (length (snd e'))" by simp
  from d show "key init \<in> visited" .
qed

lemma bfs_inv_done:
  assumes "bfs_inv visit key init ((cur, hist) # rest) visited"
  shows "\<exists>D. visited = key ` (insert cur D \<union> fst ` set rest) \<and>
           (\<forall>s \<in> D. (\<exists>h. bfs_path visit init h s) \<and> visit s \<noteq> Goal \<and>
               (\<forall>succs ms. visit s = Expand succs \<longrightarrow> ms \<in> set succs
                   \<longrightarrow> key (snd ms) \<in> visited))"
proof -
  from assms obtain D where
    "visited = key ` (D \<union> fst ` set ((cur, hist) # rest))"
    "\<forall>s \<in> D. (\<exists>h. bfs_path visit init h s) \<and> visit s \<noteq> Goal \<and>
               (\<forall>succs ms. visit s = Expand succs \<longrightarrow> ms \<in> set succs
                   \<longrightarrow> key (snd ms) \<in> visited)"
    unfolding bfs_inv_def by blast
  moreover have "D \<union> fst ` set ((cur, hist) # rest) = insert cur D \<union> fst ` set rest" by simp
  ultimately show ?thesis by metis
qed

lemma bfs_inv_skip:
  assumes inv: "bfs_inv visit key init ((cur, hist) # rest) visited"
    and skip: "visit cur = Skip"
  shows "bfs_inv visit key init rest visited"
proof -
  note h = bfs_inv_head [OF inv]
  from bfs_inv_done [OF inv] obtain D where
    v: "visited = key ` (insert cur D \<union> fst ` set rest)"
    and D: "\<forall>s \<in> D. (\<exists>h. bfs_path visit init h s) \<and> visit s \<noteq> Goal \<and>
               (\<forall>succs ms. visit s = Expand succs \<longrightarrow> ms \<in> set succs
                   \<longrightarrow> key (snd ms) \<in> visited)" by blast
  have "\<forall>s \<in> insert cur D. (\<exists>h. bfs_path visit init h s) \<and> visit s \<noteq> Goal \<and>
               (\<forall>succs ms. visit s = Expand succs \<longrightarrow> ms \<in> set succs
                   \<longrightarrow> key (snd ms) \<in> visited)"
    using D h(1) skip by auto
  with v have "\<exists>D. visited = key ` (D \<union> fst ` set rest) \<and>
           (\<forall>s \<in> D. (\<exists>h. bfs_path visit init h s) \<and> visit s \<noteq> Goal \<and>
               (\<forall>succs ms. visit s = Expand succs \<longrightarrow> ms \<in> set succs
                   \<longrightarrow> key (snd ms) \<in> visited))"
    by blast
  with h(3,5,6,7) show ?thesis unfolding bfs_inv_def by blast
qed

lemma bfs_inv_expand:
  assumes cong: "\<And>s t h h'. bfs_path visit init h s \<Longrightarrow> bfs_path visit init h' t
                  \<Longrightarrow> key s = key t \<Longrightarrow> visit s = visit t"
    and inv: "bfs_inv visit key init ((cur, hist) # rest) visited"
    and ex: "visit cur = Expand succs"
    and enq: "enqueue_all key hist succs (rest, visited) = (q', v')"
  shows "bfs_inv visit key init q' v'"
proof -
  note h = bfs_inv_head [OF inv]
  from enqueue_all_result [OF enq] obtain new where
    q': "q' = rest @ new" and v': "v' = visited \<union> key ` fst ` set new"
    and new: "\<forall>e \<in> set new. \<exists>m s'. e = (s', hist @ [m]) \<and> (m, s') \<in> set succs \<and> key s' \<notin> visited"
    and all: "\<forall>ms \<in> set succs. key (snd ms) \<in> v'" by blast
  have head_least: "\<forall>e \<in> set ((cur, hist) # rest). length hist \<le> length (snd e)"
    using h(4) by simp
  have new_entry: "bfs_path visit init (snd e) (fst e) \<and>
      (\<forall>h' t. bfs_path visit init h' t \<longrightarrow> key t = key (fst e)
          \<longrightarrow> length (snd e) \<le> length h') \<and>
      length (snd e) = Suc (length hist)" if e: "e \<in> set new" for e
  proof -
    from new e obtain m s' where e': "e = (s', hist @ [m])" and m: "(m, s') \<in> set succs"
      and k: "key s' \<notin> visited" by blast
    have p: "bfs_path visit init (hist @ [m]) s'"
      by (rule bfs_path.step [OF h(1) ex m])
    have "length (hist @ [m]) \<le> length h'"
      if p': "bfs_path visit init h' t" and kt: "key t = key s'" for h' t
    proof (rule ccontr)
      assume "\<not> length (hist @ [m]) \<le> length h'"
      hence "length h' \<le> length hist" by simp
      with head_least have "\<forall>e \<in> set ((cur, hist) # rest). length h' \<le> length (snd e)"
        by fastforce
      from bfs_inv_covered [OF cong inv p' this] k kt show False by simp
    qed
    with p e' show ?thesis by simp
  qed
  have 1: "\<forall>e \<in> set q'. bfs_path visit init (snd e) (fst e) \<and>
          (\<forall>h' t. bfs_path visit init h' t \<longrightarrow> key t = key (fst e)
              \<longrightarrow> length (snd e) \<le> length h')"
  proof
    fix e assume "e \<in> set q'"
    then consider "e \<in> set rest" | "e \<in> set new" unfolding q' by auto
    thus "bfs_path visit init (snd e) (fst e) \<and>
          (\<forall>h' t. bfs_path visit init h' t \<longrightarrow> key t = key (fst e)
              \<longrightarrow> length (snd e) \<le> length h')"
    proof cases
      case 1
      with h(3) show ?thesis by blast
    next
      case 2
      from new_entry [OF 2] show ?thesis by blast
    qed
  qed
  have range: "length hist \<le> length (snd e) \<and> length (snd e) \<le> Suc (length hist)"
    if "e \<in> set q'" for e
  proof -
    from that consider "e \<in> set rest" | "e \<in> set new" unfolding q' by auto
    thus ?thesis
    proof cases
      case 1
      with h(4) show ?thesis by blast
    next
      case 2
      from new_entry [OF 2] show ?thesis by simp
    qed
  qed
  have 2: "\<forall>e \<in> set q'. \<forall>e' \<in> set q'. length (snd e) \<le> Suc (length (snd e'))"
  proof (intro ballI)
    fix e e' assume "e \<in> set q'" "e' \<in> set q'"
    from range [OF this(1)] range [OF this(2)] show "length (snd e) \<le> Suc (length (snd e'))"
      by simp
  qed
  have "sorted (map (\<lambda>e. length (snd e)) new)"
    by (rule sorted_map_const [of _ _ "Suc (length hist)"]) (use new_entry in blast)
  moreover have "\<forall>x \<in> set rest. \<forall>y \<in> set new. length (snd x) \<le> length (snd y)"
    using h(4) new_entry by fastforce
  ultimately have 3: "sorted (map (\<lambda>e. length (snd e)) q')"
    unfolding q' using h(5) by (simp add: sorted_append)
  have 4: "key init \<in> v'" using h(7) v' by simp
  from bfs_inv_done [OF inv] obtain D where
    v: "visited = key ` (insert cur D \<union> fst ` set rest)"
    and D: "\<forall>s \<in> D. (\<exists>h. bfs_path visit init h s) \<and> visit s \<noteq> Goal \<and>
               (\<forall>succs ms. visit s = Expand succs \<longrightarrow> ms \<in> set succs
                   \<longrightarrow> key (snd ms) \<in> visited)" by blast
  have "v' = key ` (insert cur D \<union> fst ` set q')"
    unfolding v' v q' by (simp add: image_Un Un_assoc)
  moreover have "\<forall>s \<in> insert cur D. (\<exists>h. bfs_path visit init h s) \<and> visit s \<noteq> Goal \<and>
               (\<forall>succs ms. visit s = Expand succs \<longrightarrow> ms \<in> set succs
                   \<longrightarrow> key (snd ms) \<in> v')"
  proof
    fix s assume "s \<in> insert cur D"
    then consider "s = cur" | "s \<in> D" by blast
    thus "(\<exists>h. bfs_path visit init h s) \<and> visit s \<noteq> Goal \<and>
               (\<forall>succs ms. visit s = Expand succs \<longrightarrow> ms \<in> set succs
                   \<longrightarrow> key (snd ms) \<in> v')"
    proof cases
      case 1
      with h(1) ex all show ?thesis by auto
    next
      case 2
      with D v' show ?thesis by blast
    qed
  qed
  ultimately have 5: "\<exists>D. v' = key ` (D \<union> fst ` set q') \<and>
           (\<forall>s \<in> D. (\<exists>h. bfs_path visit init h s) \<and> visit s \<noteq> Goal \<and>
               (\<forall>succs ms. visit s = Expand succs \<longrightarrow> ms \<in> set succs
                   \<longrightarrow> key (snd ms) \<in> v'))"
    by blast
  from 1 2 3 4 5 show ?thesis unfolding bfs_inv_def by blast
qed

text \<open>
  What the loop returns when reachable states of one key are visited alike: an emptied queue means
  that no goal state is reachable, and a returned history is a shortest path to a goal
  state.
\<close>

lemma bfs_loop_shortest:
  fixes visit :: "'s \<Rightarrow> ('s, 'm) visit" and key :: "'s \<Rightarrow> 'k"
  assumes cong: "\<And>s t h h'. bfs_path visit init h s \<Longrightarrow> bfs_path visit init h' t
                  \<Longrightarrow> key s = key t \<Longrightarrow> visit s = visit t"
    and run: "bfs_loop visit key [(init, [])] {key init} = Some r"
  shows "case r of
           Raised e \<Rightarrow> (\<exists>h t. bfs_path visit init h t \<and> visit t = Raise e)
         | Exhausted \<Rightarrow> (\<forall>h t. bfs_path visit init h t \<longrightarrow> visit t \<noteq> Goal)
         | Found sh \<Rightarrow> bfs_path visit init (snd sh) (fst sh) \<and> visit (fst sh) = Goal \<and>
             (\<forall>h' t. bfs_path visit init h' t \<longrightarrow> visit t = Goal \<longrightarrow> length (snd sh) \<le> length h')"
proof (rule bfs_loop_rule [where I = "bfs_inv visit key init", OF run])
  show "bfs_inv visit key init [(init, [])] {key init}" by (rule bfs_inv_init)
next
  fix cur hist rest vis
  assume "bfs_inv visit key init ((cur, hist) # rest) vis" "visit cur = Skip"
  thus "bfs_inv visit key init rest vis" by (rule bfs_inv_skip)
next
  fix cur hist rest vis succs q' v'
  assume a: "bfs_inv visit key init ((cur, hist) # rest) vis" "visit cur = Expand succs"
    "enqueue_all key hist succs (rest, vis) = (q', v')"
  show "bfs_inv visit key init q' v'"
  proof (rule bfs_inv_expand [OF _ a])
    fix s t h h'
    assume "bfs_path visit init h s" "bfs_path visit init h' t" "key s = key t"
    thus "visit s = visit t" by (rule cong)
  qed
next
  fix vis
  assume inv: "bfs_inv visit key init [] vis"
  have "visit t \<noteq> Goal" if p: "bfs_path visit init h t" for h t
  proof -
    have "\<forall>e \<in> set ([] :: ('s \<times> 'm list) list). length h \<le> length (snd e)" by simp
    from bfs_inv_covered [OF cong inv p this] have "key t \<in> vis" .
    moreover from inv obtain D where "vis = key ` D"
      and D: "\<forall>s \<in> D. (\<exists>h. bfs_path visit init h s) \<and> visit s \<noteq> Goal"
      unfolding bfs_inv_def by auto
    ultimately obtain x where x: "x \<in> D" "key x = key t" by (metis imageE)
    with D obtain hx where "bfs_path visit init hx x" by blast
    from cong [OF this p x(2)] x(1) D show ?thesis by auto
  qed
  thus "case Exhausted of
           Raised e \<Rightarrow> (\<exists>h t. bfs_path visit init h t \<and> visit t = Raise e)
         | Exhausted \<Rightarrow> (\<forall>h t. bfs_path visit init h t \<longrightarrow> visit t \<noteq> Goal)
         | Found sh \<Rightarrow> bfs_path visit init (snd sh) (fst sh) \<and> visit (fst sh) = Goal \<and>
             (\<forall>h' t. bfs_path visit init h' t \<longrightarrow> visit t = Goal \<longrightarrow> length (snd sh) \<le> length h')"
    by simp
next
  fix cur hist rest vis
  assume inv: "bfs_inv visit key init ((cur, hist) # rest) vis" and g: "visit cur = Goal"
  note h = bfs_inv_head [OF inv]
  have "length hist \<le> length h'" if p: "bfs_path visit init h' t" and gt: "visit t = Goal" for h' t
  proof (rule ccontr)
    assume "\<not> length hist \<le> length h'"
    hence less: "length h' < length hist" by simp
    with h(4) have "\<forall>e \<in> set ((cur, hist) # rest). length h' \<le> length (snd e)" by fastforce
    from bfs_inv_covered [OF cong inv p this] have "key t \<in> vis" .
    moreover from bfs_inv_done [OF inv] obtain D where
      v: "vis = key ` (insert cur D \<union> fst ` set rest)"
      and D: "\<forall>s \<in> D. (\<exists>h. bfs_path visit init h s) \<and> visit s \<noteq> Goal" by blast
    ultimately obtain x where x: "x \<in> insert cur D \<union> fst ` set rest" "key x = key t"
      by (metis imageE)
    from x(1) consider "x = cur" | "x \<in> D" | e where "e \<in> set rest" "fst e = x" by auto
    thus False
    proof cases
      case 1
      with h(2) [OF p] x(2) less show False by simp
    next
      case 2
      with D obtain hx where "bfs_path visit init hx x" by blast
      from cong [OF this p x(2)] 2 D gt show False by auto
    next
      case 3
      with h(3) have
        mn: "\<forall>h' t. bfs_path visit init h' t \<longrightarrow> key t = key x \<longrightarrow> length (snd e) \<le> length h'"
        by auto
      with p x(2) have "length (snd e) \<le> length h'" by simp
      moreover from h(4) 3(1) have "length hist \<le> length (snd e)" by blast
      ultimately show False using less by simp
    qed
  qed
  with h(1) g show "case Found (cur, hist) of
           Raised e \<Rightarrow> (\<exists>h t. bfs_path visit init h t \<and> visit t = Raise e)
         | Exhausted \<Rightarrow> (\<forall>h t. bfs_path visit init h t \<longrightarrow> visit t \<noteq> Goal)
         | Found sh \<Rightarrow> bfs_path visit init (snd sh) (fst sh) \<and> visit (fst sh) = Goal \<and>
             (\<forall>h' t. bfs_path visit init h' t \<longrightarrow> visit t = Goal \<longrightarrow> length (snd sh) \<le> length h')"
    by simp
next
  fix cur hist rest vis e
  assume inv: "bfs_inv visit key init ((cur, hist) # rest) vis" and "visit cur = Raise e"
  with bfs_inv_head(1) [OF inv]
  show "case Raised e of
           Raised e \<Rightarrow> (\<exists>h t. bfs_path visit init h t \<and> visit t = Raise e)
         | Exhausted \<Rightarrow> (\<forall>h t. bfs_path visit init h t \<longrightarrow> visit t \<noteq> Goal)
         | Found sh \<Rightarrow> bfs_path visit init (snd sh) (fst sh) \<and> visit (fst sh) = Goal \<and>
             (\<forall>h' t. bfs_path visit init h' t \<longrightarrow> visit t = Goal \<longrightarrow> length (snd sh) \<le> length h')"
    by auto
qed

lemma core_simps [simp]:
  "label (core p) = label p" "piece_type (core p) = piece_type p" "row (core p) = row p"
  "col (core p) = col p" "fixed (core p) = fixed p"
  "(core p)\<lparr>height := h, width := w\<rparr> = p\<lparr>height := h, width := w\<rparr>"
  by (simp_all add: core_def)

lemma create_board_representation_core:
  assumes "\<And>p. dims (core p) = dims p"
  shows "create_board_representation dims (map core ps) b = create_board_representation dims ps b"
  by (induction ps arbitrary: b) (simp_all add: assms cong: sum.case_cong)

lemma get_all_possible_moves_valid_core:
  assumes "\<And>p. dims (core p) = dims p"
  shows "get_all_possible_moves_valid dims (map core ps) rws cls
     = get_all_possible_moves_valid dims ps rws cls"
  by (simp add: get_all_possible_moves_valid_def create_board_representation_core [where dims = dims, OF assms])

lemma find_core:
  "find (\<lambda>p. label p = tgt) (map core ps) = map_option core (find (\<lambda>p. label p = tgt) ps)"
  by (induction ps) simp_all

lemma get_piece_dimensions_simple_core [simp]:
  "get_piece_dimensions_simple (core p) = get_piece_dimensions_simple p"
  by (simp add: get_piece_dimensions_simple_def)

lemma visit_simple_core:
  "visit_simple rws cls tgt (map core s) = visit_simple rws cls tgt s"
proof -
  have g: "get_all_possible_moves_valid get_piece_dimensions_simple (map core s) rws cls
      = get_all_possible_moves_valid get_piece_dimensions_simple s rws cls"
    by (rule get_all_possible_moves_valid_core) simp
  show ?thesis
  proof (cases "find (\<lambda>p. label p = tgt) s")
    case None
    thus ?thesis by (simp add: visit_simple_def find_core)
  next
    case (Some t)
    show ?thesis
      unfolding visit_simple_def find_core g Some
      by (simp cong: sum.case_cong)
  qed
qed

lemma move_piece_shape:
  "map label (move_piece ps l r c) = map label ps"
  "map piece_type (move_piece ps l r c) = map piece_type ps"
  "map fixed (move_piece ps l r c) = map fixed ps"
  by (simp_all add: move_piece_def)

text \<open>Along a path of the search of simpleShortestMoves.py only anchors and stored dimensions change.\<close>

lemma simple_path_shape:
  assumes "bfs_path (visit_simple rws cls tgt) init h s"
  shows "map label s = map label init \<and> map piece_type s = map piece_type init \<and>
         map fixed s = map fixed init"
  using assms
proof (induction rule: bfs_path.induct)
  case start
  show ?case by simp
next
  case (step h t succs m t')
  from visit_simple_Expand [OF step.hyps(2)] obtain md cur' where
    gen: "get_all_possible_moves_valid get_piece_dimensions_simple t rws cls = Inr (md, cur')"
    and suc: "successors (move_piece cur') md cur' = Inr succs" by blast
  from gen obtain board where
    cbr: "create_board_representation get_piece_dimensions_simple t Map.empty = Inr (board, cur')"
    by (auto simp: get_all_possible_moves_valid_def split: sum.splits)
  note res = create_board_representation_result(1) [OF cbr]
  have cur': "map label cur' = map label t" "map piece_type cur' = map piece_type t"
    "map fixed cur' = map fixed t"
    unfolding res by simp_all
  from successors_entry [OF suc step.hyps(3)] obtain p d r c where
    "p \<in> set cur'" and t': "t' = move_piece cur' (label p) r c" by auto
  show ?case
    unfolding t' move_piece_shape cur' using step.IH .
qed

lemma anchor_map_lookup:
  assumes "distinct (map label ps)" "p \<in> set ps"
  shows "anchor_map ps (label p) = Some (row p, col p)"
proof -
  have "distinct (map fst (map (\<lambda>p. (label p, row p, col p)) ps))"
    using assms(1) by (simp add: comp_def)
  moreover have "(label p, row p, col p) \<in> set (map (\<lambda>p. (label p, row p, col p)) ps)"
    using assms(2) by auto
  ultimately show ?thesis
    unfolding anchor_map_def by (rule map_of_is_SomeI)
qed

text \<open>With unique labels the key fixes the anchor of every piece.\<close>

lemma key_determines_core:
  assumes d: "distinct (map label s)"
    and l: "map label s = map label t" and ty: "map piece_type s = map piece_type t"
    and f: "map fixed s = map fixed t"
    and k: "board_to_tuple s = board_to_tuple t"
  shows "map core s = map core t"
proof (rule nth_equalityI)
  from l have len: "length s = length t" by (metis length_map)
  thus "length (map core s) = length (map core t)" by simp
  fix i assume "i < length (map core s)"
  hence i: "i < length s" "i < length t" using len by simp_all
  have dt: "distinct (map label t)" using d l by simp
  from board_to_tuple_anchor_map [OF d dt] k have am: "anchor_map s = anchor_map t" by simp
  have li: "label (s ! i) = label (t ! i)"
    using l i by (metis nth_map)
  have "anchor_map s (label (s ! i)) = Some (row (s ! i), col (s ! i))"
    by (rule anchor_map_lookup [OF d]) (use i in simp)
  moreover have "anchor_map t (label (t ! i)) = Some (row (t ! i), col (t ! i))"
    by (rule anchor_map_lookup [OF dt]) (use i in simp)
  ultimately have rc: "row (s ! i) = row (t ! i)" "col (s ! i) = col (t ! i)"
    using am li by simp_all
  have "piece_type (s ! i) = piece_type (t ! i)" using ty i by (metis nth_map)
  moreover have "fixed (s ! i) = fixed (t ! i)" using f i by (metis nth_map)
  ultimately have "core (s ! i) = core (t ! i)"
    using li rc by (simp add: core_def)
  thus "map core s ! i = map core t ! i" using i by simp
qed

lemma visit_simple_cong:
  assumes d: "distinct (map label init)"
    and s: "bfs_path (visit_simple rws cls tgt) init h s"
    and t: "bfs_path (visit_simple rws cls tgt) init h' t"
    and k: "board_to_tuple s = board_to_tuple t"
  shows "visit_simple rws cls tgt s = visit_simple rws cls tgt t"
proof -
  note ss = simple_path_shape [OF s] and st = simple_path_shape [OF t]
  have "map core s = map core t"
    by (rule key_determines_core) (use d ss st k in simp_all)
  thus ?thesis
    using visit_simple_core [of rws cls tgt s] visit_simple_core [of rws cls tgt t] by simp
qed

lemma fold_move_dict_dom:
  "dom (fold (\<lambda>p m. m(label p \<mapsto> F p)) ps md) = dom md \<union> label ` set ps"
  by (induction ps arbitrary: md) auto

lemma is_valid_move_total:
  "height q = Some h \<Longrightarrow> width q = Some w \<Longrightarrow> \<exists>ok. is_valid_move q r c board rws cls = Inr ok"
  by (cases "r < 0 \<or> c < 0 \<or> r + h > rws \<or> c + w > cls") (auto simp: is_valid_move_def)

text \<open>On pieces of known types a validating generator raises nothing and has an entry for every label.\<close>

lemma get_all_possible_moves_valid_succeeds:
  assumes known: "\<forall>p \<in> set ps. \<exists>hw. dims p = Inr hw"
  shows "\<exists>md ps'. get_all_possible_moves_valid dims ps rws cls = Inr (md, ps') \<and>
           label ` set ps' \<subseteq> dom md"
proof -
  let ?up = "\<lambda>p. p\<lparr>height := Some (fst (projr (dims p))), width := Some (snd (projr (dims p)))\<rparr>"
  from create_board_representation_succeeds [OF known] obtain board ps' where
    cbr: "create_board_representation dims ps Map.empty = Inr (board, ps')" by blast
  have ps': "ps' = map ?up ps" by (rule create_board_representation_result(1) [OF cbr])
  define V where "V q r c = projr (is_valid_move (?up q) r c board rws cls)" for q r c
  have v: "is_valid_move (?up q) r c board rws cls = Inr (V q r c)" for q r c
  proof -
    have "\<exists>ok. is_valid_move (?up q) r c board rws cls = Inr ok"
      by (rule is_valid_move_total) simp_all
    thus ?thesis by (auto simp: V_def)
  qed
  define F where "F q = map (\<lambda>(d, dr, dc). (d, row q + dr, col q + dc))
      (filter (\<lambda>(d, dr, dc). V q (row q + dr) (col q + dc)) MOVES)" for q
  have vm: "valid_moves (?up q) board rws cls MOVES = Inr (F q)" for q
    using valid_moves_filter [of "?up q" board rws cls "V q" MOVES] v by (simp add: F_def)
  have bmd: "build_move_dict board rws cls ps' Map.empty
      = Inr (fold (\<lambda>q m. m(label q \<mapsto> F q)) ps Map.empty)"
    unfolding ps' by (rule build_move_dict_fold) (simp_all add: vm)
  have "label ` set ps' \<subseteq> dom (fold (\<lambda>q m. m(label q \<mapsto> F q)) ps Map.empty)"
    unfolding fold_move_dict_dom ps' by auto
  thus ?thesis
    by (simp add: get_all_possible_moves_valid_def cbr bmd)
qed

lemma successors_succeeds:
  "label ` set ps \<subseteq> dom md \<Longrightarrow> \<exists>succs. successors apply_move md ps = Inr succs"
proof (induction ps)
  case Nil
  show ?case by simp
next
  case (Cons a ps)
  then obtain ms rest where "md (label a) = Some ms" "successors apply_move md ps = Inr rest"
    by auto
  thus ?case by simp
qed

lemma get_piece_dimensions_simple_known:
  "(case get_piece_dimensions_simple p of Inl e \<Rightarrow> False | Inr hw \<Rightarrow> True) =
     (piece_type p \<in> {''1x1'', ''1x2'', ''2x1'', ''2x2''})"
  by (simp add: get_piece_dimensions_simple_def)

lemma visit_simple_no_raise:
  assumes known: "\<forall>p \<in> set s. \<exists>hw. get_piece_dimensions_simple p = Inr hw"
    and tgt: "tgt \<in> label ` set s"
  shows "visit_simple rws cls tgt s \<noteq> Raise e"
proof -
  from tgt obtain t where t: "find (\<lambda>p. label p = tgt) s = Some t"
    by (cases "find (\<lambda>p. label p = tgt) s") (auto simp: find_None_iff)
  hence "t \<in> set s" by (auto simp: find_Some_iff)
  with known obtain th tw where d: "get_piece_dimensions_simple t = Inr (th, tw)" by fastforce
  from get_all_possible_moves_valid_succeeds [OF known] obtain md ps' where
    g: "get_all_possible_moves_valid get_piece_dimensions_simple s rws cls = Inr (md, ps')"
    and dm: "label ` set ps' \<subseteq> dom md" by blast
  from successors_succeeds [OF dm] obtain succs where
    "successors (move_piece ps') md ps' = Inr succs" by blast
  thus ?thesis by (simp add: visit_simple_def t d g)
qed

lemma simple_path_known:
  assumes known: "\<forall>p \<in> set init. \<exists>hw. get_piece_dimensions_simple p = Inr hw"
    and tgt: "tgt \<in> label ` set init"
    and path: "bfs_path (visit_simple rws cls tgt) init h s"
  shows "visit_simple rws cls tgt s \<noteq> Raise e"
proof (rule visit_simple_no_raise)
  note sh = simple_path_shape [OF path]
  show "tgt \<in> label ` set s"
  proof -
    have "label ` set s = set (map label s)" by simp
    also have "\<dots> = label ` set init" using sh by simp
    finally show ?thesis using tgt by simp
  qed
  show "\<forall>p \<in> set s. \<exists>hw. get_piece_dimensions_simple p = Inr hw"
  proof
    fix p assume "p \<in> set s"
    hence "piece_type p \<in> set (map piece_type s)" by simp
    hence "piece_type p \<in> set (map piece_type init)" using sh by simp
    then obtain q where q: "q \<in> set init" "piece_type q = piece_type p" by auto
    have "get_piece_dimensions_simple p = get_piece_dimensions_simple q"
      using q(2) by (simp add: get_piece_dimensions_simple_def)
    with known q(1) show "\<exists>hw. get_piece_dimensions_simple p = Inr hw" by simp
  qed
qed

text \<open>
  The search of simpleShortestMoves.py on a configuration with unique labels, known piece
  types and an existing target: it returns a list of steps; when a goal state can be
  reached by the moves the validating generator offers, the list is a shortest path to a
  goal state, and otherwise it is empty.
\<close>

lemma find_shortest_target_path_shortest:
  assumes d: "distinct (map label (pieces puzzle_data))"
    and known: "\<forall>p \<in> set (pieces puzzle_data). \<exists>hw. get_piece_dimensions_simple p = Inr hw"
    and tgt: "target puzzle_data \<in> label ` set (pieces puzzle_data)"
  shows "\<exists>h. find_shortest_target_path puzzle_data = Some (Inr h) \<and>
     (if \<exists>h' t. bfs_path (visit_simple (rows puzzle_data) (cols puzzle_data) (target puzzle_data))
                   (pieces puzzle_data) h' t \<and>
                 visit_simple (rows puzzle_data) (cols puzzle_data) (target puzzle_data) t = Goal
      then \<exists>s. bfs_path (visit_simple (rows puzzle_data) (cols puzzle_data) (target puzzle_data))
                   (pieces puzzle_data) h s \<and>
                visit_simple (rows puzzle_data) (cols puzzle_data) (target puzzle_data) s = Goal \<and>
                (\<forall>h' t. bfs_path (visit_simple (rows puzzle_data) (cols puzzle_data) (target puzzle_data))
                            (pieces puzzle_data) h' t \<longrightarrow>
                         visit_simple (rows puzzle_data) (cols puzzle_data) (target puzzle_data) t = Goal \<longrightarrow>
                         length h \<le> length h')
      else h = [])"
proof -
  let ?init = "pieces puzzle_data"
  let ?visit = "visit_simple (rows puzzle_data) (cols puzzle_data) (target puzzle_data)"
  from find_shortest_target_path_terminates [of puzzle_data] obtain r where
    run: "bfs_loop ?visit board_to_tuple [(?init, [])] {board_to_tuple ?init} = Some r"
    by (cases "bfs_loop ?visit board_to_tuple [(?init, [])] {board_to_tuple ?init}")
      (auto simp: find_shortest_target_path_def)
  have res: "case r of
           Raised e \<Rightarrow> (\<exists>h t. bfs_path ?visit ?init h t \<and> ?visit t = Raise e)
         | Exhausted \<Rightarrow> (\<forall>h t. bfs_path ?visit ?init h t \<longrightarrow> ?visit t \<noteq> Goal)
         | Found sh \<Rightarrow> bfs_path ?visit ?init (snd sh) (fst sh) \<and> ?visit (fst sh) = Goal \<and>
             (\<forall>h' t. bfs_path ?visit ?init h' t \<longrightarrow> ?visit t = Goal \<longrightarrow> length (snd sh) \<le> length h')"
  proof (rule bfs_loop_shortest [OF _ run])
    fix s t h h'
    assume "bfs_path ?visit ?init h s" "bfs_path ?visit ?init h' t" "board_to_tuple s = board_to_tuple t"
    thus "?visit s = ?visit t" by (rule visit_simple_cong [OF d])
  qed
  show ?thesis
  proof (cases r)
    case (Raised e)
    with res obtain h t where "bfs_path ?visit ?init h t" "?visit t = Raise e" by auto
    with simple_path_known [OF known tgt] show ?thesis by blast
  next
    case Exhausted
    with res have "\<forall>h t. bfs_path ?visit ?init h t \<longrightarrow> ?visit t \<noteq> Goal" by simp
    moreover have "find_shortest_target_path puzzle_data = Some (Inr [])"
      by (simp add: find_shortest_target_path_def run Exhausted)
    ultimately show ?thesis by auto
  next
    case (Found sh)
    obtain s h where sh: "sh = (s, h)" by (cases sh)
    from res Found sh have p: "bfs_path ?visit ?init h s" and g: "?visit s = Goal"
      and m: "\<forall>h' t. bfs_path ?visit ?init h' t \<longrightarrow> ?visit t = Goal \<longrightarrow> length h \<le> length h'"
      by simp_all
    have "find_shortest_target_path puzzle_data = Some (Inr h)"
      by (simp add: find_shortest_target_path_def run Found sh)
    with p g m show ?thesis by auto
  qed
qed

lemma board_state_iff:
  "board_state dims ps =
     (distinct (map label ps) \<and> (\<forall>p \<in> set ps. \<exists>hw. dims p = Inr hw) \<and>
      (\<forall>p \<in> set ps. \<forall>q \<in> set ps. p \<noteq> q \<longrightarrow>
          type_cells dims p (row p) (col p) \<inter> type_cells dims q (row q) (col q) = {}))"
proof -
  have k: "(case dims p of Inl e \<Rightarrow> False | Inr hw \<Rightarrow> True) = (\<exists>hw. dims p = Inr hw)" for p
    by (cases "dims p") simp_all
  show ?thesis
    unfolding board_state_def list_all_iff k by blast
qed

text \<open>A move offered by a validating generator leads from a board state to a board state.\<close>

lemma valid_move_board_state:
  assumes bs: "board_state dims t"
    and pos: "\<And>q h w. dims q = Inr (h, w) \<Longrightarrow> 0 < h \<and> 0 < w"
    and ty: "\<And>p q. piece_type p = piece_type q \<Longrightarrow> dims p = dims q"
    and gen: "get_all_possible_moves_valid dims t rws cls = Inr (md, cur')"
    and p: "p \<in> set cur'" and md: "md (label p) = Some ms" and e: "(d, r, c) \<in> set ms"
  shows "board_state dims (move_piece cur' (label p) r c)"
proof -
  let ?up = "\<lambda>p. p\<lparr>height := Some (fst (projr (dims p))), width := Some (snd (projr (dims p)))\<rparr>"
  let ?own = "\<lambda>q. type_cells dims q (row q) (col q)"
  from bs have dl: "distinct (map label t)"
    and known: "\<forall>q \<in> set t. \<exists>hw. dims q = Inr hw"
    and disj: "\<forall>q \<in> set t. \<forall>q' \<in> set t. q \<noteq> q' \<longrightarrow> ?own q \<inter> ?own q' = {}"
    unfolding board_state_iff by blast+
  from gen obtain board where
    cbr: "create_board_representation dims t Map.empty = Inr (board, cur')"
    by (auto simp: get_all_possible_moves_valid_def split: sum.splits)
  have cur': "cur' = map ?up t" by (rule create_board_representation_result(1) [OF cbr])
  with p obtain p0 where p0: "p0 \<in> set t" and pp0: "p = ?up p0" by auto
  have lp: "label p = label p0" using pp0 by simp
  from get_all_possible_moves_valid_iff [where rws = rws and cls = cls, OF bs pos p0] gen md lp e
  have ok: "\<forall>q \<in> set t. q \<noteq> p0 \<longrightarrow> type_cells dims p0 r c \<inter> ?own q = {}"
    by auto
  define g where "g q = (if label q = label p0 then (?up q)\<lparr>row := r, col := c\<rparr> else ?up q)" for q
  have t': "move_piece cur' (label p) r c = map g t"
    unfolding cur' lp move_piece_def g_def by simp
  have gl: "label (g q) = label q" for q by (simp add: g_def)
  have gd: "dims (g q) = dims q" for q by (rule ty) (simp add: g_def)
  have same: "q = p0" if "q \<in> set t" "label q = label p0" for q
    using dl p0 that by (auto simp: distinct_map inj_on_def)
  have tc: "type_cells dims (g q) a b = type_cells dims q a b" for q a b
    by (simp add: type_cells_def gd)
  have own: "?own (g q) = (if q = p0 then type_cells dims p0 r c else ?own q)" if "q \<in> set t" for q
  proof (cases "q = p0")
    case True
    thus ?thesis unfolding tc by (simp add: g_def)
  next
    case False
    with same [OF that] have "label q \<noteq> label p0" by blast
    with False show ?thesis unfolding tc by (simp add: g_def)
  qed
  have 1: "distinct (map label (map g t))" using dl by (simp add: comp_def gl)
  have 2: "\<forall>x \<in> set (map g t). \<exists>hw. dims x = Inr hw" using known gd by auto
  have 3: "\<forall>x \<in> set (map g t). \<forall>y \<in> set (map g t). x \<noteq> y \<longrightarrow> ?own x \<inter> ?own y = {}"
  proof (intro ballI impI)
    fix x y assume "x \<in> set (map g t)" "y \<in> set (map g t)" "x \<noteq> y"
    then obtain q1 q2 where q: "q1 \<in> set t" "q2 \<in> set t" "x = g q1" "y = g q2" "q1 \<noteq> q2"
      by auto
    show "?own x \<inter> ?own y = {}"
    proof (cases "q1 = p0")
      case True
      with q(5) have "q2 \<noteq> p0" by simp
      with q(2) ok have "type_cells dims p0 r c \<inter> ?own q2 = {}" by simp
      with q True show ?thesis by (simp add: own)
    next
      case False
      show ?thesis
      proof (cases "q2 = p0")
        case True
        from False q(1) ok have "type_cells dims p0 r c \<inter> ?own q1 = {}" by simp
        with q True False show ?thesis by (auto simp: own)
      next
        case q2: False
        from q(1,2,5) disj have "?own q1 \<inter> ?own q2 = {}" by simp
        with q False q2 show ?thesis by (simp add: own)
      qed
    qed
  qed
  from 1 2 3 show ?thesis unfolding t' board_state_iff by simp
qed

text \<open>Finitely many states lie within a bounded number of steps.\<close>

lemma finite_bounded_paths:
  "finite {t. \<exists>h. bfs_path visit init h t \<and> length h \<le> n}"
proof (induction n)
  case 0
  have "{t. \<exists>h. bfs_path visit init h t \<and> length h \<le> 0} \<subseteq> {init}"
    by (auto elim: bfs_path.cases)
  thus ?case by (rule finite_subset) simp
next
  case (Suc n)
  let ?L = "\<lambda>n. {t. \<exists>h. bfs_path visit init h t \<and> length h \<le> n}"
  define nxt where "nxt t = (case visit t of Expand succs \<Rightarrow> snd ` set succs | _ \<Rightarrow> {})" for t
  have fn: "finite (nxt t)" for t by (cases "visit t") (simp_all add: nxt_def)
  have "?L (Suc n) \<subseteq> ?L n \<union> (\<Union>t \<in> ?L n. nxt t)"
  proof
    fix t' assume "t' \<in> ?L (Suc n)"
    then obtain h where p: "bfs_path visit init h t'" and l: "length h \<le> Suc n" by blast
    from p show "t' \<in> ?L n \<union> (\<Union>t \<in> ?L n. nxt t)"
    proof (cases rule: bfs_path.cases)
      case start
      have "bfs_path visit init [] init" by (rule bfs_path.start)
      hence "init \<in> ?L n" by force
      with start show ?thesis by simp
    next
      case (step h0 t succs m)
      with l have "length h0 \<le> n" by simp
      with step have "t \<in> ?L n" by blast
      moreover from step have "t' \<in> nxt t" by (force simp: nxt_def)
      ultimately show ?thesis by blast
    qed
  qed
  moreover have "finite (?L n \<union> (\<Union>t \<in> ?L n. nxt t))" using Suc fn by simp
  ultimately show ?case by (rule finite_subset)
qed

text \<open>
  While a goal state can be reached, no history longer than a path to it comes to the
  head of the queue.
\<close>

lemma bfs_inv_head_bound:
  assumes cong: "\<And>s t h h'. bfs_path visit init h s \<Longrightarrow> bfs_path visit init h' t
                  \<Longrightarrow> key s = key t \<Longrightarrow> visit s = visit t"
    and inv: "bfs_inv visit key init ((cur, hist) # rest) visited"
    and goal: "bfs_path visit init hg g" "visit g = Goal"
  shows "length hist \<le> length hg"
proof (rule ccontr)
  assume "\<not> length hist \<le> length hg"
  hence less: "length hg < length hist" by simp
  note h = bfs_inv_head [OF inv]
  have short: "\<forall>e \<in> set ((cur, hist) # rest). length hg \<le> length (snd e)"
    using less h(4) by auto
  have "key g \<in> visited"
  proof (rule bfs_inv_covered [OF _ inv goal(1) short])
    fix s t h h'
    assume "bfs_path visit init h s" "bfs_path visit init h' t" "key s = key t"
    thus "visit s = visit t" by (rule cong)
  qed
  moreover from bfs_inv_done [OF inv] obtain D where
    v: "visited = key ` (insert cur D \<union> fst ` set rest)"
    and D: "\<forall>s \<in> D. (\<exists>h. bfs_path visit init h s) \<and> visit s \<noteq> Goal"
    by blast
  ultimately have "key g \<in> key ` (insert cur D \<union> fst ` set rest)" by simp
  then obtain x0 where x0: "x0 \<in> insert cur D \<union> fst ` set rest" "key x0 = key g"
    by (metis imageE)
  hence "x0 \<in> D \<union> fst ` set ((cur, hist) # rest)" by auto
  with x0 obtain x where x: "x \<in> D \<union> fst ` set ((cur, hist) # rest)" "key x = key g"
    by blast
  show False
  proof (cases "x \<in> D")
    case True
    with D obtain hx where "bfs_path visit init hx x" and ng: "visit x \<noteq> Goal" by blast
    from cong [OF this(1) goal(1) x(2)] goal(2) ng show False by simp
  next
    case False
    with x(1) have "x \<in> fst ` set ((cur, hist) # rest)" by simp
    then obtain e where e: "e \<in> set ((cur, hist) # rest)" "fst e = x" by (metis imageE)
    with inv have
      "\<forall>h' t. bfs_path visit init h' t \<longrightarrow> key t = key x \<longrightarrow> length (snd e) \<le> length h'"
      unfolding bfs_inv_def by auto
    with goal(1) x(2) have "length (snd e) \<le> length hg" by simp
    moreover have "length hist \<le> length (snd e)" using e(1) h(4) by auto
    ultimately show False using less by simp
  qed
qed

text \<open>
  The loop returns whenever a goal state can be reached: the search never goes deeper than
  a path to it, and finitely many states lie that near.
\<close>

lemma bfs_loop_terminates_goal:
  fixes visit :: "'s \<Rightarrow> ('s, 'm) visit" and key :: "'s \<Rightarrow> 'k"
  assumes cong: "\<And>s t h h'. bfs_path visit init h s \<Longrightarrow> bfs_path visit init h' t
                  \<Longrightarrow> key s = key t \<Longrightarrow> visit s = visit t"
    and goal: "bfs_path visit init hg g" "visit g = Goal"
  shows "\<exists>r. bfs_loop visit key [(init, [])] {key init} = Some r"
proof -
  define U where "U = key ` {t. \<exists>h. bfs_path visit init h t \<and> length h \<le> Suc (length hg)}"
  have fin: "finite U" unfolding U_def by (rule finite_imageI) (rule finite_bounded_paths)
  have "\<exists>r. bfs_loop visit key queue visited = Some r"
    if "bfs_inv visit key init queue visited" for queue visited
    using that
  proof (induction "length queue + card (U - visited)" arbitrary: queue visited rule: less_induct)
    case less
    show ?case
    proof (cases queue)
      case Nil
      thus ?thesis by (subst bfs_loop.simps) simp
    next
      case (Cons a rest)
      obtain cur hist where a: "a = (cur, hist)" by (cases a)
      note inv = less.prems [unfolded Cons a]
      show ?thesis
      proof (cases "visit cur")
        case (Raise e)
        thus ?thesis unfolding Cons a by (subst bfs_loop.simps) simp
      next
        case Skip
        have "\<exists>r. bfs_loop visit key rest visited = Some r"
          by (rule less.hyps) (simp_all add: Cons bfs_inv_skip [OF inv Skip])
        thus ?thesis unfolding Cons a by (subst bfs_loop.simps) (simp add: Skip)
      next
        case Goal
        thus ?thesis unfolding Cons a by (subst bfs_loop.simps) simp
      next
        case (Expand succs)
        obtain q' v' where e: "enqueue_all key hist succs (rest, visited) = (q', v')"
          by (cases "enqueue_all key hist succs (rest, visited)")
        have inv': "bfs_inv visit key init q' v'"
        proof (rule bfs_inv_expand [OF _ inv Expand e])
          fix s t h h'
          assume "bfs_path visit init h s" "bfs_path visit init h' t" "key s = key t"
          thus "visit s = visit t" by (rule cong)
        qed
        have bound: "length hist \<le> length hg"
        proof (rule bfs_inv_head_bound [OF _ inv goal])
          fix s t h h'
          assume "bfs_path visit init h s" "bfs_path visit init h' t" "key s = key t"
          thus "visit s = visit t" by (rule cong)
        qed
        have cur: "bfs_path visit init hist cur" by (rule bfs_inv_head(1) [OF inv])
        have "\<forall>ms \<in> set succs. key (snd ms) \<in> U"
        proof
          fix ms assume ms: "ms \<in> set succs"
          obtain m s' where p: "ms = (m, s')" by (cases ms)
          from bfs_path.step [OF cur Expand] ms p have "bfs_path visit init (hist @ [m]) s'"
            by simp
          moreover have "length (hist @ [m]) \<le> Suc (length hg)" using bound by simp
          ultimately have "s' \<in> {t. \<exists>h. bfs_path visit init h t \<and> length h \<le> Suc (length hg)}"
            by blast
          thus "key (snd ms) \<in> U" unfolding U_def p by simp
        qed
        from enqueue_all_measure [OF fin this e]
        have m: "length q' + card (U - v') = length rest + card (U - visited)" by simp
        have "length q' + card (U - v') < length queue + card (U - visited)"
          using m Cons by simp
        hence "\<exists>r. bfs_loop visit key q' v' = Some r"
          using less.hyps inv' by blast
        thus ?thesis unfolding Cons a by (subst bfs_loop.simps) (simp add: Expand e)
      qed
    qed
  qed
  from this [OF bfs_inv_init] show ?thesis .
qed

subsection \<open>The search of shortestMoves.py\<close>

lemma successors_complete:
  "successors ap md ps = Inr succs \<Longrightarrow> p \<in> set ps \<Longrightarrow> md (label p) = Some ms \<Longrightarrow> (d, r, c) \<in> set ms
     \<Longrightarrow> ((label p, d), ap (label p) r c) \<in> set succs"
proof (induction ps arbitrary: succs)
  case Nil
  thus ?case by simp
next
  case (Cons a ps)
  from Cons.prems(1) obtain ms0 rest where a: "md (label a) = Some ms0"
    and r: "successors ap md ps = Inr rest"
    and s: "succs = map (\<lambda>(d, r, c). ((label a, d), ap (label a) r c)) ms0 @ rest"
    by (auto split: option.splits sum.splits)
  show ?case
  proof (cases "p = a")
    case True
    with a Cons.prems(3) have "ms0 = ms" by simp
    with Cons.prems(4) True show ?thesis unfolding s by force
  next
    case False
    with Cons.prems(2) have "p \<in> set ps" by simp
    from Cons.IH [OF r this Cons.prems(3,4)] show ?thesis unfolding s by simp
  qed
qed

lemma get_all_possible_moves_lookup:
  assumes "distinct (map label ps)" "p \<in> set ps"
  shows "get_all_possible_moves ps rws cls (label p)
     = Some (map (\<lambda>(d, dr, dc). (d, row p + dr, col p + dc)) MOVES)"
  unfolding get_all_possible_moves_def
  by (rule fold_move_dict_lookup
      [where F = "\<lambda>p. map (\<lambda>(d, dr, dc). (d, row p + dr, col p + dc)) MOVES", OF assms])

lemma visit_from_state_Expand:
  assumes "visit_from_state rws cls tgt s = Expand succs"
  shows "successors (move_piece s) (get_all_possible_moves s rws cls) s = Inr succs"
  using assms by (auto simp: visit_from_state_def split: option.splits if_splits sum.splits)

text \<open>The generator has an entry for every label, so the expansion raises nothing.\<close>

lemma visit_from_state_no_raise: "visit_from_state rws cls tgt s \<noteq> Raise e"
proof -
  have "label ` set s \<subseteq> dom (get_all_possible_moves s rws cls)"
    by (simp add: get_all_possible_moves_def get_all_possible_moves_dom_aux)
  from successors_succeeds [OF this] obtain succs where
    "successors (move_piece s) (get_all_possible_moves s rws cls) s = Inr succs" by blast
  thus ?thesis by (simp add: visit_from_state_def split: option.splits)
qed

text \<open>Along a path of this search only anchors change.\<close>

lemma move_piece_unanchored:
  "map (\<lambda>p. p\<lparr>row := 0, col := 0\<rparr>) (move_piece ps l r c) = map (\<lambda>p. p\<lparr>row := 0, col := 0\<rparr>) ps"
  by (induction ps) (simp_all add: move_piece_def)

lemma from_state_path_shape:
  assumes "bfs_path (visit_from_state rws cls tgt) init h s"
  shows "map (\<lambda>p. p\<lparr>row := 0, col := 0\<rparr>) s = map (\<lambda>p. p\<lparr>row := 0, col := 0\<rparr>) init"
  using assms
proof (induction rule: bfs_path.induct)
  case start
  show ?case by simp
next
  case (step h t succs m t')
  from successors_entry [OF visit_from_state_Expand [OF step.hyps(2)] step.hyps(3)]
  obtain p :: piece and r c where "t' = move_piece t (label p) r c" by blast
  thus ?case using step.IH by (simp add: move_piece_unanchored)
qed

lemma unanchored_labels:
  assumes "map (\<lambda>p. p\<lparr>row := 0, col := 0\<rparr>) s = map (\<lambda>p. p\<lparr>row := 0, col := 0\<rparr>) t"
  shows "map label s = map label t"
proof -
  have "map label s = map label (map (\<lambda>p. p\<lparr>row := 0, col := 0\<rparr>) s)" by (simp add: comp_def)
  also have "\<dots> = map label (map (\<lambda>p. p\<lparr>row := 0, col := 0\<rparr>) t)" by (simp only: assms)
  also have "\<dots> = map label t" by (simp add: comp_def)
  finally show ?thesis .
qed

text \<open>With unique labels the key fixes the state among those differing in anchors only.\<close>

lemma key_determines_state:
  assumes d: "distinct (map label s)"
    and sh: "map (\<lambda>p. p\<lparr>row := 0, col := 0\<rparr>) s = map (\<lambda>p. p\<lparr>row := 0, col := 0\<rparr>) t"
    and k: "board_to_tuple s = board_to_tuple t"
  shows "s = t"
proof (rule nth_equalityI)
  have l: "map label s = map label t" by (rule unanchored_labels [OF sh])
  from sh show len: "length s = length t" by (metis length_map)
  fix i assume i: "i < length s"
  hence it: "i < length t" using len by simp
  have dt: "distinct (map label t)" using d l by simp
  from board_to_tuple_anchor_map [OF d dt] k have am: "anchor_map s = anchor_map t" by simp
  have li: "label (s ! i) = label (t ! i)" using l i it by (metis nth_map)
  have "anchor_map s (label (s ! i)) = Some (row (s ! i), col (s ! i))"
    by (rule anchor_map_lookup [OF d]) (use i in simp)
  moreover have "anchor_map t (label (t ! i)) = Some (row (t ! i), col (t ! i))"
    by (rule anchor_map_lookup [OF dt]) (use it in simp)
  ultimately have rc: "row (s ! i) = row (t ! i)" "col (s ! i) = col (t ! i)"
    using am li by simp_all
  have e: "(s ! i)\<lparr>row := 0, col := 0\<rparr> = (t ! i)\<lparr>row := 0, col := 0\<rparr>"
    using sh i it by (metis nth_map)
  show "s ! i = t ! i" using rc e by (cases "s ! i"; cases "t ! i") simp
qed

lemma visit_from_state_cong:
  assumes d: "distinct (map label init)"
    and s: "bfs_path (visit_from_state rws cls tgt) init h s"
    and t: "bfs_path (visit_from_state rws cls tgt) init h' t"
    and k: "board_to_tuple s = board_to_tuple t"
  shows "s = t"
proof (rule key_determines_state [OF _ _ k])
  show "distinct (map label s)"
    using unanchored_labels [OF from_state_path_shape [OF s]] d by simp
  show "map (\<lambda>p. p\<lparr>row := 0, col := 0\<rparr>) s = map (\<lambda>p. p\<lparr>row := 0, col := 0\<rparr>) t"
    using from_state_path_shape [OF s] from_state_path_shape [OF t] by simp
qed

lemma find_move_piece:
  "find (\<lambda>p. label p = l) (move_piece ps l r c)
     = map_option (\<lambda>p. p\<lparr>row := r, col := c\<rparr>) (find (\<lambda>p. label p = l) ps)"
  by (induction ps) (simp_all add: move_piece_def)

text \<open>
  The shifts are not validated, so the target can be walked to the corner from anywhere:
  a state passing the goal test is always reachable.
\<close>

lemma from_state_goal_reachable:
  assumes d: "distinct (map label init)"
  shows "bfs_path (visit_from_state rws cls tgt) init h s \<Longrightarrow>
     find (\<lambda>p. label p = tgt) s = Some t \<Longrightarrow>
     nat \<bar>row t - (rws - 1)\<bar> + nat \<bar>col t\<bar> = n \<Longrightarrow>
     \<exists>h' g. bfs_path (visit_from_state rws cls tgt) init h' g \<and>
            visit_from_state rws cls tgt g = Goal"
proof (induction n arbitrary: h s t)
  case 0
  hence "row t = rws - 1 \<and> col t = 0" by simp
  with "0.prems"(2) have "visit_from_state rws cls tgt s = Goal"
    by (simp add: visit_from_state_def)
  with "0.prems"(1) show ?case by blast
next
  case (Suc n)
  let ?V = "visit_from_state rws cls tgt"
  have ng: "\<not> (row t = rws - 1 \<and> col t = 0)" using Suc.prems(3) by auto
  from Suc.prems(2) have ts: "t \<in> set s" "label t = tgt"
    by (auto simp: find_Some_iff)
  have ds: "distinct (map label s)"
    using unanchored_labels [OF from_state_path_shape [OF Suc.prems(1)]] d by simp
  obtain succs where ex: "?V s = Expand succs"
  proof (cases "?V s")
    case (Raise e)
    with visit_from_state_no_raise show ?thesis by blast
  next
    case Skip
    with Suc.prems(2) show ?thesis
      by (simp add: visit_from_state_def split: if_splits sum.splits)
  next
    case Goal
    with Suc.prems(2) ng show ?thesis
      by (simp add: visit_from_state_def split: if_splits sum.splits)
  next
    case (Expand succs)
    thus ?thesis by (rule that)
  qed
  note suc = visit_from_state_Expand [OF ex]
  obtain dir dr dc where mv: "(dir, dr, dc) \<in> set MOVES"
    and dist: "nat \<bar>row t + dr - (rws - 1)\<bar> + nat \<bar>col t + dc\<bar> = n"
  proof -
    consider "row t < rws - 1" | "row t > rws - 1" | "row t = rws - 1" "col t > 0"
      | "row t = rws - 1" "col t < 0" using ng by linarith
    thus ?thesis
    proof cases
      case 1
      have "(Down, 1, 0) \<in> set MOVES" by (simp add: MOVES_def)
      moreover have "nat \<bar>row t + 1 - (rws - 1)\<bar> + nat \<bar>col t + 0\<bar> = n"
        using 1 Suc.prems(3) by simp
      ultimately show ?thesis by (rule that)
    next
      case 2
      have "(Up, - 1, 0) \<in> set MOVES" by (simp add: MOVES_def)
      moreover have "nat \<bar>row t + (- 1) - (rws - 1)\<bar> + nat \<bar>col t + 0\<bar> = n"
        using 2 Suc.prems(3) by simp
      ultimately show ?thesis by (rule that)
    next
      case 3
      have "(Left, 0, - 1) \<in> set MOVES" by (simp add: MOVES_def)
      moreover have "nat \<bar>row t + 0 - (rws - 1)\<bar> + nat \<bar>col t + (- 1)\<bar> = n"
        using 3 Suc.prems(3) by simp
      ultimately show ?thesis by (rule that)
    next
      case 4
      have "(Right, 0, 1) \<in> set MOVES" by (simp add: MOVES_def)
      moreover have "nat \<bar>row t + 0 - (rws - 1)\<bar> + nat \<bar>col t + 1\<bar> = n"
        using 4 Suc.prems(3) by simp
      ultimately show ?thesis by (rule that)
    qed
  qed
  have md: "get_all_possible_moves s rws cls (label t)
      = Some (map (\<lambda>(d, dr, dc). (d, row t + dr, col t + dc)) MOVES)"
    by (rule get_all_possible_moves_lookup [OF ds ts(1)])
  have "(dir, row t + dr, col t + dc) \<in> set (map (\<lambda>(d, dr, dc). (d, row t + dr, col t + dc)) MOVES)"
    using mv by force
  from successors_complete [OF suc ts(1) md this]
  have mem: "((tgt, dir), move_piece s tgt (row t + dr) (col t + dc)) \<in> set succs"
    using ts(2) by simp
  let ?s' = "move_piece s tgt (row t + dr) (col t + dc)"
  have p': "bfs_path ?V init (h @ [(tgt, dir)]) ?s'"
    by (rule bfs_path.step [OF Suc.prems(1) ex mem])
  have f': "find (\<lambda>p. label p = tgt) ?s' = Some (t\<lparr>row := row t + dr, col := col t + dc\<rparr>)"
    by (simp add: find_move_piece Suc.prems(2))
  show ?case by (rule Suc.IH [OF p' f']) (simp add: dist)
qed

text \<open>
  The search of shortestMoves.py on a board with unique labels that holds the target: it
  returns, and what it returns is a shortest path, in the graph of the unvalidated shifts,
  to a state passing the goal test.
\<close>

lemma find_shortest_target_path_from_state_result:
  assumes d: "distinct (map label ps)"
    and tgt: "find (\<lambda>p. label p = target c) ps = Some t0"
  shows "\<exists>h s. find_shortest_target_path_from_state ps c = Some (Inr h) \<and>
     bfs_path (visit_from_state (rows c) (cols c) (target c)) ps h s \<and>
     visit_from_state (rows c) (cols c) (target c) s = Goal \<and>
     (\<forall>h' t. bfs_path (visit_from_state (rows c) (cols c) (target c)) ps h' t \<longrightarrow>
        visit_from_state (rows c) (cols c) (target c) t = Goal \<longrightarrow> length h \<le> length h')"
proof -
  let ?V = "visit_from_state (rows c) (cols c) (target c)"
  have cong: "?V s = ?V t"
    if "bfs_path ?V ps h s" "bfs_path ?V ps h' t" "board_to_tuple s = board_to_tuple t" for s t h h'
    using visit_from_state_cong [OF d that] by simp
  from from_state_goal_reachable [OF d bfs_path.start tgt refl] obtain hg g where
    g: "bfs_path ?V ps hg g" "?V g = Goal" by blast
  have "\<exists>r. bfs_loop ?V board_to_tuple [(ps, [])] {board_to_tuple ps} = Some r"
  proof (rule bfs_loop_terminates_goal [OF _ g])
    fix s t h h'
    assume "bfs_path ?V ps h s" "bfs_path ?V ps h' t" "board_to_tuple s = board_to_tuple t"
    thus "?V s = ?V t" by (rule cong)
  qed
  then obtain r where run: "bfs_loop ?V board_to_tuple [(ps, [])] {board_to_tuple ps} = Some r" ..
  have res: "case r of
           Raised e \<Rightarrow> (\<exists>h t. bfs_path ?V ps h t \<and> ?V t = Raise e)
         | Exhausted \<Rightarrow> (\<forall>h t. bfs_path ?V ps h t \<longrightarrow> ?V t \<noteq> Goal)
         | Found sh \<Rightarrow> bfs_path ?V ps (snd sh) (fst sh) \<and> ?V (fst sh) = Goal \<and>
             (\<forall>h' t. bfs_path ?V ps h' t \<longrightarrow> ?V t = Goal \<longrightarrow> length (snd sh) \<le> length h')"
  proof (rule bfs_loop_shortest [OF _ run])
    fix s t h h'
    assume "bfs_path ?V ps h s" "bfs_path ?V ps h' t" "board_to_tuple s = board_to_tuple t"
    thus "?V s = ?V t" by (rule cong)
  qed
  show ?thesis
  proof (cases r)
    case (Raised e)
    with res visit_from_state_no_raise show ?thesis by auto
  next
    case Exhausted
    with res g show ?thesis by auto
  next
    case (Found sh)
    obtain s h where sh: "sh = (s, h)" by (cases sh)
    from res Found sh have p: "bfs_path ?V ps h s" and gl: "?V s = Goal"
      and m: "\<forall>h' t. bfs_path ?V ps h' t \<longrightarrow> ?V t = Goal \<longrightarrow> length h \<le> length h'"
      by simp_all
    have "find_shortest_target_path_from_state ps c = Some (Inr h)"
      by (simp add: find_shortest_target_path_from_state_def tgt run Found sh)
    with p gl m show ?thesis by blast
  qed
qed

lemma find_shortest_target_path_from_state_terminates:
  assumes "distinct (map label ps)"
  shows "\<exists>r. find_shortest_target_path_from_state ps c = Some r"
proof (cases "find (\<lambda>p. label p = target c) ps")
  case None
  thus ?thesis by (simp add: find_shortest_target_path_from_state_def)
next
  case (Some t0)
  from find_shortest_target_path_from_state_result [OF assms Some] show ?thesis by blast
qed












subsection \<open>The goal test of the three searches\<close>



subsection \<open>Termination of the searches\<close>

text \<open>
  On a board state where no piece has a legal move the validating generator offers
  nothing, and the search of simpleShortestMoves.py is over after the first dequeue.
\<close>

lemma simple_stuck:
  assumes bs: "board_state get_piece_dimensions_simple (pieces c)"
    and tgt: "target c \<in> label ` set (pieces c)"
    and stuck: "no_legal_move get_piece_dimensions_simple (pieces c) (rows c) (cols c)"
  shows "find_shortest_target_path c = Some (Inr [])"
proof -
  let ?ps = "pieces c"
  let ?V = "visit_simple (rows c) (cols c) (target c)"
  let ?dims = get_piece_dimensions_simple
  from bs have known: "\<forall>p \<in> set ?ps. \<exists>hw. ?dims p = Inr hw"
    unfolding board_state_iff by blast
  have loop: "bfs_loop ?V board_to_tuple [(?ps, [])] {board_to_tuple ?ps} = Some (Found (?ps, [])) \<or>
      bfs_loop ?V board_to_tuple [(?ps, [])] {board_to_tuple ?ps} = Some Exhausted"
  proof (cases "?V ?ps")
    case (Raise e)
    with visit_simple_no_raise [OF known tgt] show ?thesis by blast
  next
    case Skip
    thus ?thesis
      by (auto simp: visit_simple_def split: option.splits sum.splits prod.splits if_splits)
  next
    case Goal
    have "bfs_loop ?V board_to_tuple [(?ps, [])] {board_to_tuple ?ps} = Some (Found (?ps, []))"
      by (rule bfs_loop_Goal) (rule Goal)
    thus ?thesis by blast
  next
    case (Expand succs)
    from visit_simple_Expand [OF Expand] obtain md cur' where
      gen: "get_all_possible_moves_valid ?dims ?ps (rows c) (cols c) = Inr (md, cur')"
      and suc: "successors (move_piece cur') md cur' = Inr succs" by blast
    from gen obtain board where
      cbr: "create_board_representation ?dims ?ps Map.empty = Inr (board, cur')"
      by (auto simp: get_all_possible_moves_valid_def split: sum.splits)
    have cur': "map label cur' = map label ?ps"
      unfolding create_board_representation_result(1) [OF cbr] by simp
    have "succs = []"
    proof (rule ccontr)
      assume "succs \<noteq> []"
      then obtain m s' where "(m, s') \<in> set succs" by (cases succs) auto
      from successors_entry [OF suc this] obtain p' ms d r cc where
        p': "p' \<in> set cur'" and md: "md (label p') = Some ms" and e: "(d, r, cc) \<in> set ms"
        by blast
      from p' have "label p' \<in> set (map label cur')" by simp
      hence "label p' \<in> set (map label ?ps)" unfolding cur' .
      then obtain p where p: "p \<in> set ?ps" and lp: "label p = label p'" by auto
      from get_all_possible_moves_valid_iff [where rws = "rows c" and cls = "cols c",
          OF bs get_piece_dimensions_pos(2) p] gen md lp e
      obtain dr dc where mv: "(d, dr, dc) \<in> set MOVES"
        and rc: "r = row p + dr" "cc = col p + dc"
        and legal: "type_cells ?dims p r cc \<subseteq> grid (rows c) (cols c)"
          "\<forall>q \<in> set ?ps. q \<noteq> p \<longrightarrow>
             type_cells ?dims p r cc \<inter> type_cells ?dims q (row q) (col q) = {}"
        by auto
      from stuck p mv have
        "\<not> legal_shift ?dims ?ps (rows c) (cols c) p (row p + dr) (col p + dc)"
        unfolding no_legal_move_def by fastforce
      with legal rc show False by (simp add: legal_shift_def)
    qed
    hence "bfs_loop ?V board_to_tuple [(?ps, [])] {board_to_tuple ?ps} = Some Exhausted"
      using Expand by (subst bfs_loop.simps, simp, subst bfs_loop.simps, simp)
    thus ?thesis by blast
  qed
  thus ?thesis by (auto simp: find_shortest_target_path_def)
qed

text \<open>
  Claim C4. Both searches return. \<open>find_shortest_target_path\<close> returns on every
  configuration; on one with unique labels, known piece types and an existing target it
  returns a list of steps, which is a path to a goal state when one can be reached and is
  empty otherwise (the queue has emptied); and on a board state where no piece has a
  legal move it returns the empty list, after the first dequeue.
  \<open>find_shortest_target_path_from_state\<close> returns a list of steps on every board with
  unique labels; on the fully packed 5 x 1 board, where no piece has a legal move, what it
  returns is the step "target down", the shifts it follows being unvalidated.
\<close>

theorem bfs_terminates:
  fixes ca :: "'a puzzle_config_scheme" and cb :: "'a puzzle_config_scheme"
    and cc :: "'a puzzle_config_scheme" and cd :: "'a puzzle_config_scheme"
  shows
  "(\<exists>r. find_shortest_target_path ca = Some r) \<and>
   (distinct (map label ps) \<longrightarrow>
      (\<exists>h. find_shortest_target_path_from_state ps cb = Some (Inr h))) \<and>
   (distinct (map label (pieces cc)) \<and>
    (\<forall>p \<in> set (pieces cc). \<exists>hw. get_piece_dimensions_simple p = Inr hw) \<and>
    target cc \<in> label ` set (pieces cc) \<longrightarrow>
      (\<exists>h. find_shortest_target_path cc = Some (Inr h) \<and>
         (if \<exists>h' t. bfs_path (visit_simple (rows cc) (cols cc) (target cc)) (pieces cc) h' t \<and>
                    visit_simple (rows cc) (cols cc) (target cc) t = Goal
          then \<exists>s. bfs_path (visit_simple (rows cc) (cols cc) (target cc)) (pieces cc) h s \<and>
                   visit_simple (rows cc) (cols cc) (target cc) s = Goal
          else h = []))) \<and>
   (board_state get_piece_dimensions_simple (pieces cd) \<and>
    target cd \<in> label ` set (pieces cd) \<and>
    no_legal_move get_piece_dimensions_simple (pieces cd) (rows cd) (cols cd) \<longrightarrow>
      find_shortest_target_path cd = Some (Inr []))"
proof (intro conjI impI)
  show "\<exists>r. find_shortest_target_path ca = Some r"
    by (rule find_shortest_target_path_terminates)
next
  assume d: "distinct (map label ps)"
  show "\<exists>h. find_shortest_target_path_from_state ps cb = Some (Inr h)"
  proof (cases "find (\<lambda>p. label p = target cb) ps")
    case None
    thus ?thesis by (simp add: find_shortest_target_path_from_state_def)
  next
    case (Some t0)
    from find_shortest_target_path_from_state_result [OF d Some] show ?thesis by blast
  qed
next
  assume a: "distinct (map label (pieces cc)) \<and>
    (\<forall>p \<in> set (pieces cc). \<exists>hw. get_piece_dimensions_simple p = Inr hw) \<and>
    target cc \<in> label ` set (pieces cc)"
  hence a1: "distinct (map label (pieces cc))"
    and a2: "\<forall>p \<in> set (pieces cc). \<exists>hw. get_piece_dimensions_simple p = Inr hw"
    and a3: "target cc \<in> label ` set (pieces cc)" by blast+
  from find_shortest_target_path_shortest [OF a1 a2 a3] obtain h where
    h: "find_shortest_target_path cc = Some (Inr h)"
    and r: "if \<exists>h' t. bfs_path (visit_simple (rows cc) (cols cc) (target cc)) (pieces cc) h' t \<and>
                    visit_simple (rows cc) (cols cc) (target cc) t = Goal
          then \<exists>s. bfs_path (visit_simple (rows cc) (cols cc) (target cc)) (pieces cc) h s \<and>
                   visit_simple (rows cc) (cols cc) (target cc) s = Goal \<and>
                   (\<forall>h' t. bfs_path (visit_simple (rows cc) (cols cc) (target cc)) (pieces cc) h' t \<longrightarrow>
                       visit_simple (rows cc) (cols cc) (target cc) t = Goal \<longrightarrow> length h \<le> length h')
          else h = []" by blast
  have "if \<exists>h' t. bfs_path (visit_simple (rows cc) (cols cc) (target cc)) (pieces cc) h' t \<and>
                    visit_simple (rows cc) (cols cc) (target cc) t = Goal
          then \<exists>s. bfs_path (visit_simple (rows cc) (cols cc) (target cc)) (pieces cc) h s \<and>
                   visit_simple (rows cc) (cols cc) (target cc) s = Goal
          else h = []"
    using r by (auto split: if_splits)
  with h show "\<exists>h. find_shortest_target_path cc = Some (Inr h) \<and>
         (if \<exists>h' t. bfs_path (visit_simple (rows cc) (cols cc) (target cc)) (pieces cc) h' t \<and>
                    visit_simple (rows cc) (cols cc) (target cc) t = Goal
          then \<exists>s. bfs_path (visit_simple (rows cc) (cols cc) (target cc)) (pieces cc) h s \<and>
                   visit_simple (rows cc) (cols cc) (target cc) s = Goal
          else h = [])" by blast
next
  assume "board_state get_piece_dimensions_simple (pieces cd) \<and>
    target cd \<in> label ` set (pieces cd) \<and>
    no_legal_move get_piece_dimensions_simple (pieces cd) (rows cd) (cols cd)"
  thus "find_shortest_target_path cd = Some (Inr [])"
    using simple_stuck [of cd] by blast
qed

theorem bfs_terminates_witness:
  "distinct (map label packed_5x1) \<and>
   (\<exists>h. find_shortest_target_path_from_state packed_5x1 config_5x1 = Some (Inr h)) \<and>
   find_shortest_target_path_from_state packed_5x1 config_5x1 = Some (Inr [(''T'', Down)]) \<and>
   distinct (map label (pieces config_2x2)) \<and>
   map get_piece_dimensions_simple (pieces config_2x2) = [Inr (1, 1), Inr (1, 1)] \<and>
   target config_2x2 \<in> label ` set (pieces config_2x2) \<and>
   (\<exists>h. find_shortest_target_path config_2x2 = Some (Inr h)) \<and>
   board_state get_piece_dimensions_simple (pieces (config_5x1\<lparr>pieces := packed_5x1\<rparr>)) \<and>
   target (config_5x1\<lparr>pieces := packed_5x1\<rparr>)
     \<in> label ` set (pieces (config_5x1\<lparr>pieces := packed_5x1\<rparr>)) \<and>
   no_legal_move get_piece_dimensions_simple (pieces (config_5x1\<lparr>pieces := packed_5x1\<rparr>))
     (rows (config_5x1\<lparr>pieces := packed_5x1\<rparr>)) (cols (config_5x1\<lparr>pieces := packed_5x1\<rparr>)) \<and>
   find_shortest_target_path (config_5x1\<lparr>pieces := packed_5x1\<rparr>) = Some (Inr [])"
proof -
  note inst = bfs_terminates [where ca = config_2x2 and ps = packed_5x1 and cb = config_5x1
      and cc = config_2x2 and cd = "config_5x1\<lparr>pieces := packed_5x1\<rparr>"]
  note k2 = inst [THEN conjunct2, THEN conjunct1, rule_format]
  note k3 = inst [THEN conjunct2, THEN conjunct2, THEN conjunct1, rule_format]
  note k4 = inst [THEN conjunct2, THEN conjunct2, THEN conjunct2, rule_format]
  have h2: "distinct (map label packed_5x1)" by code_simp
  have v2: "find_shortest_target_path_from_state packed_5x1 config_5x1 = Some (Inr [(''T'', Down)])"
    by code_simp
  have h3a: "distinct (map label (pieces config_2x2))" by code_simp
  have h3m: "map get_piece_dimensions_simple (pieces config_2x2) = [Inr (1, 1), Inr (1, 1)]"
    by code_simp
  have h3b: "\<forall>p \<in> set (pieces config_2x2). \<exists>hw. get_piece_dimensions_simple p = Inr hw"
    by (simp add: config_2x2_def board_2x2_def mk_piece_def get_piece_dimensions_simple_def)
  have h3c: "target config_2x2 \<in> label ` set (pieces config_2x2)" by code_simp
  have h4a: "board_state get_piece_dimensions_simple (pieces (config_5x1\<lparr>pieces := packed_5x1\<rparr>))"
    by code_simp
  have h4b: "target (config_5x1\<lparr>pieces := packed_5x1\<rparr>)
     \<in> label ` set (pieces (config_5x1\<lparr>pieces := packed_5x1\<rparr>))" by code_simp
  have h4c: "no_legal_move get_piece_dimensions_simple (pieces (config_5x1\<lparr>pieces := packed_5x1\<rparr>))
     (rows (config_5x1\<lparr>pieces := packed_5x1\<rparr>)) (cols (config_5x1\<lparr>pieces := packed_5x1\<rparr>))"
    by code_simp
  from k3 [OF conjI [OF h3a conjI [OF h3b h3c]]]
  have g3: "\<exists>h. find_shortest_target_path config_2x2 = Some (Inr h)" by blast
  show ?thesis
    by (intro conjI) (rule h2 k2 [OF h2] v2 h3a h3m h3c g3 h4a h4b h4c
        k4 [OF conjI [OF h4a conjI [OF h4b h4c]]])+
qed

subsection \<open>The searches on example boards\<close>

text \<open>
  Claim C1. On the 2 x 2 board with the target at (0, 0) and a unit piece below it, the
  search of shortestMoves.py returns the single step "target down", which moves the target
  onto the other piece; the search of simpleShortestMoves.py, whose moves are validated,
  returns the two legal steps.
\<close>

theorem from_state_path_through_piece:
  "find_shortest_target_path_from_state board_2x2 config_2x2 = Some (Inr [(''T'', Down)]) \<and>
   find_shortest_target_path config_2x2 = Some (Inr [(''B'', Right), (''T'', Down)])"
  by code_simp

text \<open>
  Claim C5. The search of shortestMoves.py returns the empty list for the target already
  in the bottom-left corner and the same empty list for a state that lacks the target (no
  goal state is reachable from it). The search of getToEnd.py returns the empty sequence
  with the state in the first case and \<open>(None, None)\<close> in the second.
\<close>

theorem from_state_empty_list_twice:
  "find_shortest_target_path_from_state solved_2x2 config_2x2 = Some (Inr []) \<and>
   find_shortest_target_path_from_state [mk_piece ''B'' ''1x1'' 1 0] config_2x2 = Some (Inr []) \<and>
   find_shortest_path_from_supernode solved_super config_2x2 ''T''
     = Some (Inr (Some ([], solved_super))) \<and>
   find_shortest_path_from_supernode
      \<lparr>state_pieces = [(mk_piece ''B'' ''1x1'' 1 0)\<lparr>height := Some 1, width := Some 1\<rparr>],
       extra_blocks = []\<rparr> config_2x2 ''T'' = Some (Inr None)"
  by code_simp

end
